theory Spec2Isabelle
  imports Complex_Main "HOL-Library.Word"
begin

unbundle bit_operations_syntax

section \<open>Machine types\<close>

text \<open>
  The firmware targets a 32-bit ARM core: \<open>uint8_t\<close> is an 8-bit word, \<open>int\<close> a 32-bit
  two's-complement word and \<open>float\<close> an IEEE-754 binary32 number.
\<close>

type_synonym uint8_t = "8 word"
type_synonym int_t = "32 word"

text \<open>
  Behaviour that C++ leaves undefined is an error value of the model: a division by
  zero, a shift by the width of \<open>int\<close> or more, a write outside the caller's buffer and
  a float-to-int conversion whose truncated value does not fit \<open>int\<close>.
\<close>

datatype error = DivisionByZero | ShiftTooWide | BufferOverrun | FloatToIntRange

section \<open>binary32 arithmetic\<close>

text \<open>
  A finite \<open>float\<close> is \<open>Finite m e\<close> with value \<open>m * 2 ^ e\<close>; infinities and NaNs are
  \<open>NonFinite\<close> (whatever reaches the \<open>(int)\<close> cast as one of them is undefined).
  Arithmetic rounds to nearest, ties to even, to 24 significant bits with the exponent
  range of binary32 (least exponent \<open>-149\<close>, overflow at \<open>2 ^ 128\<close>); a zero significand
  is zero at any exponent.
\<close>

datatype float32 = Finite int int | NonFinite

function bitlen :: "int \<Rightarrow> int" where
  "bitlen n = (if n \<le> 0 then 0 else 1 + bitlen (n div 2))"
  by pat_completeness auto
termination
  by (relation "measure nat") auto

declare bitlen.simps [simp del]

definition round_f32 :: "int \<Rightarrow> int \<Rightarrow> float32" where
  "round_f32 m e =
     (let a = \<bar>m\<bar>;
          e' = max (e + bitlen a - 24) (- 149)
      in if e' \<le> e then (if m \<noteq> 0 \<and> 128 < e + bitlen a then NonFinite else Finite m e)
         else
           (let sh = nat (e' - e);
                q = a div 2 ^ sh;
                r = a mod 2 ^ sh;
                q' = (if 2 ^ (sh - 1) < r \<or> (r = 2 ^ (sh - 1) \<and> odd q) then q + 1 else q)
            in if 128 < e' + bitlen q' then NonFinite
               else Finite (sgn m * q') e'))"

fun fmul :: "float32 \<Rightarrow> float32 \<Rightarrow> float32" where
  "fmul (Finite m1 e1) (Finite m2 e2) = round_f32 (m1 * m2) (e1 + e2)"
| "fmul _ _ = NonFinite"

text \<open>The cast \<open>(int)f\<close>: truncation toward zero, undefined outside the range of \<open>int\<close>.\<close>

fun trunc_f32 :: "float32 \<Rightarrow> int option" where
  "trunc_f32 (Finite m e) =
     Some (if 0 \<le> e then m * 2 ^ nat e else sgn m * (\<bar>m\<bar> div 2 ^ nat (- e)))"
| "trunc_f32 NonFinite = None"

definition float_to_int :: "float32 \<Rightarrow> error + int_t" where
  "float_to_int f =
     (case trunc_f32 f of
        None \<Rightarrow> Inl FloatToIntRange
      | Some t \<Rightarrow> if - (2 ^ 31) \<le> t \<and> t < 2 ^ 31 then Inr (word_of_int t)
                  else Inl FloatToIntRange)"

section \<open>Sensor readings\<close>

text \<open>
  \<open>encodeDataWithSchema\<close> is a template instantiated by the five \<open>encodeData\<close>
  overloads: \<open>uint8_t\<close>, \<open>uint16_t\<close>, \<open>uint32_t\<close>, \<open>int\<close> and \<open>float\<close>. The cast
  \<open>(float)sensor_data\<close> rounds an integer to binary32.
\<close>

datatype sensor_value =
  U8 "8 word" | U16 "16 word" | U32 "32 word" | I32 "32 word" | F32 float32

fun to_float :: "sensor_value \<Rightarrow> float32" where
  "to_float (U8 w) = round_f32 (uint w) 0"
| "to_float (U16 w) = round_f32 (uint w) 0"
| "to_float (U32 w) = round_f32 (uint w) 0"
| "to_float (I32 w) = round_f32 (sint w) 0"
| "to_float (F32 f) = f"

section \<open>Field codec and payload\<close>

text \<open>
  Modelled from the spec: \<open>struct sensorPortSchema\<close> is declared in SensorPortSchema.h,
  which is not among the sources. The code reads the four members \<open>n_bytes\<close>,
  \<open>n_values\<close>, \<open>scale_factor\<close> and \<open>is_signed\<close> (the spec's byte_width, value_count,
  scale_factor and is_signed); the two counts are natural numbers here.
\<close>

record sensorPortSchema =
  n_bytes :: nat
  n_values :: nat
  scale_factor :: float32
  is_signed :: bool

text \<open>
  \<open>lmh_app_data_t\<close> is the radio stack's frame descriptor, initialised in the example
  sketch as \<open>{payload_buffer, strlen("Hello!"), 1, 0, 0}\<close>: the buffer (the caller's
  array, whose length is its capacity), the 8-bit fill level \<open>buffsize\<close>, the port and
  two link-quality members.
\<close>

record lmh_app_data_t =
  buffer :: "uint8_t list"
  buffsize :: uint8_t
  port :: uint8_t
  rssi :: "16 word"
  snr :: uint8_t

text \<open>Calls to \<open>log(level, message)\<close> are collected in the order they are made.\<close>

datatype LOG_LEVEL = NONE | ERROR | WARN | INFO | DEBUG

type_synonym log_call = "LOG_LEVEL \<times> string"

section \<open>encodeDataWithSchema\<close>

text \<open>
  One byte of the loop body. In the branch \<open>j > 0\<close> the mask \<open>0xFF << bitshift\<close> and the
  shift back are \<open>int\<close> operations: the right shift of a negative \<open>int\<close> is arithmetic,
  and the cast to \<open>uint8_t\<close> keeps the low eight bits.
\<close>

definition encode_byte :: "int_t \<Rightarrow> uint8_t \<Rightarrow> uint8_t" where
  "encode_byte data_to_encode j =
     (if 0 < j
      then ucast (signed_drop_bit (unat (j * 8))
                    (data_to_encode AND push_bit (unat (j * 8)) 0xFF))
      else ucast (data_to_encode AND 0xFF))"

text \<open>
  The \<open>for\<close> loop: \<open>i\<close> and \<open>j\<close> are \<open>uint8_t\<close> counters, \<open>bitshift = j * 8\<close> is a
  \<open>uint8_t\<close> too, and the index \<open>buf_pos + i\<close> is computed in \<open>int\<close>. The loop returns
  the buffer and the final \<open>i\<close>.
\<close>

function encode_loop ::
  "int_t \<Rightarrow> nat \<Rightarrow> uint8_t \<Rightarrow> uint8_t \<Rightarrow> uint8_t \<Rightarrow> uint8_t list \<Rightarrow> error + (uint8_t list \<times> uint8_t)"
where
  "encode_loop data_to_encode data_size buf_pos i j buf =
     (if unat i < data_size then
        (if 0 < j \<and> 32 \<le> unat (j * 8) then Inl ShiftTooWide
         else if length buf \<le> unat buf_pos + unat i then Inl BufferOverrun
         else encode_loop data_to_encode data_size buf_pos (i + 1) (j - 1)
                (buf[unat buf_pos + unat i := encode_byte data_to_encode j]))
      else Inr (buf, i))"
  by pat_completeness auto

termination encode_loop
proof (relation "measure (\<lambda>(d, ds, bp, i, j, buf).
          if 0 < j \<and> 32 \<le> unat (j * 8) then 0 else unat j + 1)", goal_cases)
  case 1
  show ?case by simp
next
  case (2 d ds bp i j buf)
  have "(if 0 < j - 1 \<and> 32 \<le> unat ((j - 1) * 8) then 0 else unat (j - 1) + 1)
      < (if 0 < j \<and> 32 \<le> unat (j * 8) then 0 else unat j + 1)"
  proof (cases "j = 0")
    case True
    then have e: "j - 1 = 255" by simp
    show ?thesis unfolding e using True by simp
  next
    case False
    then have "unat (j - 1) = unat j - 1" by (simp add: unat_minus_one)
    moreover from False have "0 < unat j" by (simp add: unat_gt_0)
    ultimately show ?thesis using 2(2) by simp
  qed
  then show ?case by simp
qed

declare encode_loop.simps [simp del]

text \<open>
  The value that is packed (source lines 17 to 32): the scaled reading, or the sentinel
  \<open>0x7F7F7F7F\<close> for a signed codec and \<open>0xFFFFFFFF\<close> (the \<open>int\<close> \<open>-1\<close>) otherwise.
\<close>

definition data_to_encode :: "sensor_value \<Rightarrow> bool \<Rightarrow> sensorPortSchema \<Rightarrow> error + int_t" where
  "data_to_encode sensor_data valid sensor_schema =
     (if valid then float_to_int (fmul (to_float sensor_data) (scale_factor sensor_schema))
      else if is_signed sensor_schema then Inr 0x7F7F7F7F
      else Inr 0xFFFFFFFF)"

text \<open>The diagnostic of source lines 34 to 36.\<close>

definition sign_warning :: "sensorPortSchema \<Rightarrow> int_t \<Rightarrow> log_call list" where
  "sign_warning sensor_schema d =
     (if \<not> is_signed sensor_schema \<and> d <s 0
      then [(WARN, ''A signed value is being sent for a sensor port schema that is unsigned.'')]
      else [])"

text \<open>
  The whole call: the updated payload and the log calls made, or the first undefined
  operation. \<open>j\<close> starts at \<open>data_size - 1\<close> converted to \<open>uint8_t\<close>, and the new
  \<open>buffsize\<close> is \<open>buf_pos + i\<close> converted to \<open>uint8_t\<close>.
\<close>

definition encodeDataWithSchema ::
  "sensor_value \<Rightarrow> bool \<Rightarrow> 'a lmh_app_data_t_scheme \<Rightarrow> sensorPortSchema
     \<Rightarrow> error + ('a lmh_app_data_t_scheme \<times> log_call list)"
where
  "encodeDataWithSchema sensor_data valid lorawan_payload sensor_schema =
     (let buf_pos = buffsize lorawan_payload in
      case data_to_encode sensor_data valid sensor_schema of
        Inl e \<Rightarrow> Inl e
      | Inr d \<Rightarrow>
          if n_values sensor_schema = 0 then Inl DivisionByZero
          else
            (let data_size = n_bytes sensor_schema div n_values sensor_schema in
             case encode_loop d data_size buf_pos 0 (of_nat data_size - 1)
                    (buffer lorawan_payload) of
               Inl e \<Rightarrow> Inl e
             | Inr (buf, i) \<Rightarrow>
                 Inr (lorawan_payload\<lparr>buffer := buf, buffsize := buf_pos + i\<rparr>,
                      sign_warning sensor_schema d)))"

section \<open>The wire format in the spec's words\<close>

text \<open>
  Big-endian, most significant byte first, over \<open>k\<close> bytes, of the integer \<open>x\<close> in
  two's complement: byte \<open>i\<close> is \<open>x div 256 ^ (k - 1 - i)\<close> reduced modulo 256.
\<close>

definition be_bytes :: "nat \<Rightarrow> int \<Rightarrow> uint8_t list" where
  "be_bytes k x = map (\<lambda>i. word_of_int (x div 256 ^ (k - 1 - i))) [0..<k]"

text \<open>The bytes of one value of a field: \<open>byte_width / value_count\<close>.\<close>

definition value_width :: "sensorPortSchema \<Rightarrow> nat" where
  "value_width s = n_bytes s div n_values s"

text \<open>The sentinel: \<open>0x7F\<close> repeated for a signed codec, \<open>0xFF\<close> repeated otherwise.\<close>

definition sentinel_bytes :: "sensorPortSchema \<Rightarrow> uint8_t list" where
  "sentinel_bytes s = replicate (value_width s) (if is_signed s then 0x7F else 0xFF)"

text \<open>The bytes a call appended: those from the old fill level on, one value wide.\<close>

definition appended :: "'a lmh_app_data_t_scheme \<Rightarrow> 'a lmh_app_data_t_scheme \<Rightarrow> sensorPortSchema \<Rightarrow> uint8_t list" where
  "appended p p' s = take (value_width s) (drop (unat (buffsize p)) (buffer p'))"

text \<open>
  The value of a finite binary32 number as a rational, and rounding toward zero on
  the rationals: the yardsticks for the cast \<open>(int)\<close>.
\<close>

definition valof :: "float32 \<Rightarrow> rat" where
  "valof f = (case f of
       Finite m e \<Rightarrow> if 0 \<le> e then of_int m * 2 ^ nat e else of_int m / 2 ^ nat (- e)
     | NonFinite \<Rightarrow> 0)"

definition round_toward_zero :: "rat \<Rightarrow> int" where
  "round_toward_zero x = (if 0 \<le> x then \<lfloor>x\<rfloor> else - \<lfloor>- x\<rfloor>)"

section \<open>binary32 rounding in the standard's words\<close>

text \<open>
  IEEE 754 rounds a number \<open>x\<close> to nearest, ties to even, as if the exponent had no upper
  bound. The unit in the last place is \<open>2 ^ e\<close> for the \<open>e\<close> with
  \<open>2 ^ (e + 23) \<le> \<bar>x\<bar> < 2 ^ (e + 24)\<close>, and \<open>2 ^ -149\<close> below the normal range; the
  result \<open>m * 2 ^ e\<close> is a multiple of the unit nearest to \<open>x\<close>, the one with even \<open>m\<close>
  when two multiples are equally near.
\<close>

definition nearest_even :: "rat \<Rightarrow> int \<Rightarrow> int \<Rightarrow> bool" where
  "nearest_even x m e \<longleftrightarrow>
     - 149 \<le> e \<and> (e = - 149 \<or> 2 powi (e + 23) \<le> \<bar>x\<bar>) \<and> \<bar>x\<bar> < 2 powi (e + 24)
     \<and> 2 * \<bar>of_int m * 2 powi e - x\<bar> \<le> 2 powi e
     \<and> (2 * \<bar>of_int m * 2 powi e - x\<bar> = 2 powi e \<longrightarrow> even m)"

text \<open>
  The rounded number is the binary32 result unless it overflows, that is unless its
  magnitude reaches \<open>2 ^ 128\<close>.
\<close>

definition binary32_rounding :: "rat \<Rightarrow> int \<Rightarrow> int \<Rightarrow> bool" where
  "binary32_rounding x m e \<longleftrightarrow> nearest_even x m e \<and> \<bar>of_int m * 2 powi e :: rat\<bar> < 2 ^ 128"

text \<open>The number that a reading stands for.\<close>

definition exact_value :: "sensor_value \<Rightarrow> rat" where
  "exact_value v =
     (case v of
        U8 w \<Rightarrow> of_int (uint w) | U16 w \<Rightarrow> of_int (uint w) | U32 w \<Rightarrow> of_int (uint w)
      | I32 w \<Rightarrow> of_int (sint w) | F32 f \<Rightarrow> valof f)"

text \<open>
  The cast \<open>(float)sensor_data\<close> in these words: an integer reading is rounded to
  binary32, a \<open>float\<close> reading is kept as it is.
\<close>

definition converts_to :: "sensor_value \<Rightarrow> int \<Rightarrow> int \<Rightarrow> bool" where
  "converts_to v m e =
     (case v of
        F32 f \<Rightarrow> f = Finite m e
      | _ \<Rightarrow> binary32_rounding (exact_value v) m e)"

section \<open>Port schemas\<close>

text \<open>
  The sensor field kinds, in the order of the flags of \<open>struct portSchema\<close>, which is
  the canonical order of the fields on the wire.
\<close>

datatype SensorFieldKind =
  BatteryVoltage | Temperature | RelativeHumidity | AirPressure | GasResistance
  | Location | CurrentSensor

definition field_order :: "SensorFieldKind list" where
  "field_order =
     [BatteryVoltage, Temperature, RelativeHumidity, AirPressure, GasResistance,
      Location, CurrentSensor]"

record portSchema =
  port_number :: uint8_t
  sendBatteryVoltage :: bool
  sendTemperature :: bool
  sendRelativeHumidity :: bool
  sendAirPressure :: bool
  sendGasResistance :: bool
  sendLocation :: bool
  sendCurrentSensor :: bool

fun port_includes :: "portSchema \<Rightarrow> SensorFieldKind \<Rightarrow> bool" where
  "port_includes ps BatteryVoltage = sendBatteryVoltage ps"
| "port_includes ps Temperature = sendTemperature ps"
| "port_includes ps RelativeHumidity = sendRelativeHumidity ps"
| "port_includes ps AirPressure = sendAirPressure ps"
| "port_includes ps GasResistance = sendGasResistance ps"
| "port_includes ps Location = sendLocation ps"
| "port_includes ps CurrentSensor = sendCurrentSensor ps"

text \<open>The schema constants of PortSchema.h; \<open>__UINT8_MAX__\<close> is 255.\<close>

definition PORTERROR :: portSchema where
  "PORTERROR =
     \<lparr>port_number = 255, sendBatteryVoltage = False, sendTemperature = False,
      sendRelativeHumidity = False, sendAirPressure = False,
      sendGasResistance = False, sendLocation = False, sendCurrentSensor = False\<rparr>"

definition PORT1 :: portSchema where
  "PORT1 =
     \<lparr>port_number = 1, sendBatteryVoltage = True, sendTemperature = False,
      sendRelativeHumidity = False, sendAirPressure = False,
      sendGasResistance = False, sendLocation = False, sendCurrentSensor = False\<rparr>"

definition PORT2 :: portSchema where
  "PORT2 =
     \<lparr>port_number = 2, sendBatteryVoltage = False, sendTemperature = True,
      sendRelativeHumidity = False, sendAirPressure = False,
      sendGasResistance = False, sendLocation = False, sendCurrentSensor = False\<rparr>"

definition PORT3 :: portSchema where
  "PORT3 =
     \<lparr>port_number = 3, sendBatteryVoltage = True, sendTemperature = True,
      sendRelativeHumidity = False, sendAirPressure = False,
      sendGasResistance = False, sendLocation = False, sendCurrentSensor = False\<rparr>"

definition PORT4 :: portSchema where
  "PORT4 =
     \<lparr>port_number = 4, sendBatteryVoltage = False, sendTemperature = True,
      sendRelativeHumidity = True, sendAirPressure = False,
      sendGasResistance = False, sendLocation = False, sendCurrentSensor = False\<rparr>"

definition PORT5 :: portSchema where
  "PORT5 =
     \<lparr>port_number = 5, sendBatteryVoltage = True, sendTemperature = True,
      sendRelativeHumidity = True, sendAirPressure = False,
      sendGasResistance = False, sendLocation = False, sendCurrentSensor = False\<rparr>"

definition PORT6 :: portSchema where
  "PORT6 =
     \<lparr>port_number = 6, sendBatteryVoltage = False, sendTemperature = True,
      sendRelativeHumidity = True, sendAirPressure = True,
      sendGasResistance = False, sendLocation = False, sendCurrentSensor = False\<rparr>"

definition PORT7 :: portSchema where
  "PORT7 =
     \<lparr>port_number = 7, sendBatteryVoltage = True, sendTemperature = True,
      sendRelativeHumidity = True, sendAirPressure = True,
      sendGasResistance = False, sendLocation = False, sendCurrentSensor = False\<rparr>"

definition PORT8 :: portSchema where
  "PORT8 =
     \<lparr>port_number = 8, sendBatteryVoltage = False, sendTemperature = True,
      sendRelativeHumidity = True, sendAirPressure = True,
      sendGasResistance = True, sendLocation = False, sendCurrentSensor = False\<rparr>"

definition PORT9 :: portSchema where
  "PORT9 =
     \<lparr>port_number = 9, sendBatteryVoltage = True, sendTemperature = True,
      sendRelativeHumidity = True, sendAirPressure = True,
      sendGasResistance = True, sendLocation = False, sendCurrentSensor = False\<rparr>"

definition PORT10 :: portSchema where
  "PORT10 =
     \<lparr>port_number = 10, sendBatteryVoltage = False, sendTemperature = False,
      sendRelativeHumidity = False, sendAirPressure = False,
      sendGasResistance = False, sendLocation = False, sendCurrentSensor = True\<rparr>"

definition PORT11 :: portSchema where
  "PORT11 =
     \<lparr>port_number = 11, sendBatteryVoltage = True, sendTemperature = False,
      sendRelativeHumidity = False, sendAirPressure = False,
      sendGasResistance = False, sendLocation = False, sendCurrentSensor = True\<rparr>"

definition PORT50 :: portSchema where
  "PORT50 =
     \<lparr>port_number = 50, sendBatteryVoltage = False, sendTemperature = False,
      sendRelativeHumidity = False, sendAirPressure = False,
      sendGasResistance = False, sendLocation = True, sendCurrentSensor = False\<rparr>"

definition PORT51 :: portSchema where
  "PORT51 =
     \<lparr>port_number = 51, sendBatteryVoltage = True, sendTemperature = False,
      sendRelativeHumidity = False, sendAirPressure = False,
      sendGasResistance = False, sendLocation = True, sendCurrentSensor = False\<rparr>"

definition PORT52 :: portSchema where
  "PORT52 =
     \<lparr>port_number = 52, sendBatteryVoltage = False, sendTemperature = True,
      sendRelativeHumidity = False, sendAirPressure = False,
      sendGasResistance = False, sendLocation = True, sendCurrentSensor = False\<rparr>"

definition PORT53 :: portSchema where
  "PORT53 =
     \<lparr>port_number = 53, sendBatteryVoltage = True, sendTemperature = True,
      sendRelativeHumidity = False, sendAirPressure = False,
      sendGasResistance = False, sendLocation = True, sendCurrentSensor = False\<rparr>"

definition PORT54 :: portSchema where
  "PORT54 =
     \<lparr>port_number = 54, sendBatteryVoltage = False, sendTemperature = True,
      sendRelativeHumidity = True, sendAirPressure = False,
      sendGasResistance = False, sendLocation = True, sendCurrentSensor = False\<rparr>"

definition PORT55 :: portSchema where
  "PORT55 =
     \<lparr>port_number = 55, sendBatteryVoltage = True, sendTemperature = True,
      sendRelativeHumidity = True, sendAirPressure = False,
      sendGasResistance = False, sendLocation = True, sendCurrentSensor = False\<rparr>"

definition PORT56 :: portSchema where
  "PORT56 =
     \<lparr>port_number = 56, sendBatteryVoltage = False, sendTemperature = True,
      sendRelativeHumidity = True, sendAirPressure = True,
      sendGasResistance = False, sendLocation = True, sendCurrentSensor = False\<rparr>"

definition PORT57 :: portSchema where
  "PORT57 =
     \<lparr>port_number = 57, sendBatteryVoltage = True, sendTemperature = True,
      sendRelativeHumidity = True, sendAirPressure = True,
      sendGasResistance = False, sendLocation = True, sendCurrentSensor = False\<rparr>"

definition PORT58 :: portSchema where
  "PORT58 =
     \<lparr>port_number = 58, sendBatteryVoltage = False, sendTemperature = True,
      sendRelativeHumidity = True, sendAirPressure = True,
      sendGasResistance = True, sendLocation = True, sendCurrentSensor = False\<rparr>"

definition PORT59 :: portSchema where
  "PORT59 =
     \<lparr>port_number = 59, sendBatteryVoltage = True, sendTemperature = True,
      sendRelativeHumidity = True, sendAirPressure = True,
      sendGasResistance = True, sendLocation = True, sendCurrentSensor = False\<rparr>"

text \<open>
  Modelled from the spec: the port catalog is built in PortSchema.cpp, which is not
  among the sources. It is the table of the port constants of PortSchema.h.
\<close>

definition registered_ports :: "portSchema list" where
  "registered_ports =
     [PORT1, PORT2, PORT3, PORT4, PORT5, PORT6, PORT7,
      PORT8, PORT9, PORT10, PORT11, PORT50, PORT51, PORT52,
      PORT53, PORT54, PORT55, PORT56, PORT57, PORT58, PORT59]"

text \<open>
  Modelled from the spec: the body of \<open>getPort\<close> is in PortSchema.cpp, which is not
  among the sources. It returns the registered schema that carries the port number,
  and the error schema \<open>PORTERROR\<close> for a number that no registered schema carries.
\<close>

definition getPort :: "uint8_t \<Rightarrow> portSchema" where
  "getPort n =
     (case find (\<lambda>ps. port_number ps = n) registered_ports of
        Some ps \<Rightarrow> ps
      | None \<Rightarrow> PORTERROR)"

text \<open>
  Modelled from the spec: the body of \<open>portSchema::operator+\<close> is in PortSchema.cpp,
  which is not among the sources. Its declaration says: the port number is set to 0,
  and the send flags are or'ed.
\<close>

definition combine :: "portSchema \<Rightarrow> portSchema \<Rightarrow> portSchema" where
  "combine port1 port2 =
     \<lparr>port_number = 0,
      sendBatteryVoltage = (sendBatteryVoltage port1 \<or> sendBatteryVoltage port2),
      sendTemperature = (sendTemperature port1 \<or> sendTemperature port2),
      sendRelativeHumidity = (sendRelativeHumidity port1 \<or> sendRelativeHumidity port2),
      sendAirPressure = (sendAirPressure port1 \<or> sendAirPressure port2),
      sendGasResistance = (sendGasResistance port1 \<or> sendGasResistance port2),
      sendLocation = (sendLocation port1 \<or> sendLocation port2),
      sendCurrentSensor = (sendCurrentSensor port1 \<or> sendCurrentSensor port2)\<rparr>"

text \<open>
  The encoded length of a port in the spec's words: the sum of \<open>byte_width\<close> over its
  included fields. The table of field codecs (one \<open>sensorPortSchema\<close> per kind, in
  SensorPortSchema.h) is a parameter.
\<close>

definition encoded_length :: "(SensorFieldKind \<Rightarrow> sensorPortSchema) \<Rightarrow> portSchema \<Rightarrow> nat" where
  "encoded_length codec ps =
     sum_list (map (\<lambda>k. if port_includes ps k then n_bytes (codec k) else 0) field_order)"









section \<open>Decoding\<close>

text \<open>
  binary32 division, rounded to nearest, ties to even: the quotient of the significands
  is computed to at least 27 bits, and a last bit records whether the division left a
  remainder, before rounding to 24 bits.
\<close>

definition fdiv :: "float32 \<Rightarrow> float32 \<Rightarrow> float32" where
  "fdiv x y =
     (case (x, y) of
        (Finite m1 e1, Finite m2 e2) \<Rightarrow>
          if m2 = 0 then NonFinite
          else
            (let k = nat (max 0 (27 + bitlen \<bar>m2\<bar> - bitlen \<bar>m1\<bar>));
                 n = \<bar>m1\<bar> * 2 ^ k;
                 q = n div \<bar>m2\<bar>;
                 sticky = (if n mod \<bar>m2\<bar> = 0 then 0 else 1)
             in round_f32 (sgn m1 * sgn m2 * (2 * q + sticky)) (e1 - e2 - int k - 1))
      | _ \<Rightarrow> NonFinite)"

text \<open>The unsigned integer that a run of bytes spells, most significant byte first.\<close>

definition be_int :: "uint8_t list \<Rightarrow> int" where
  "be_int bs = foldl (\<lambda>acc b. acc * 256 + uint b) 0 bs"

text \<open>
  Modelled from the spec: the reassembly step of \<open>sensorPortSchema::decodeData\<close>, which
  is not among the sources: the big-endian integer of the value's bytes, read in two's
  complement for a signed codec.
\<close>

definition reassemble :: "sensorPortSchema \<Rightarrow> uint8_t list \<Rightarrow> int" where
  "reassemble s bs =
     (if is_signed s \<and> 256 ^ length bs \<le> 2 * be_int bs
      then be_int bs - 256 ^ length bs
      else be_int bs)"

text \<open>
  Modelled from the spec: the sentinel pattern of a codec's width and signedness, as the
  integer that the decoder compares with.
\<close>

definition sentinel_value :: "sensorPortSchema \<Rightarrow> int" where
  "sentinel_value s = be_int (sentinel_bytes s)"

text \<open>
  Modelled from the spec: \<open>sensorPortSchema::decodeData\<close> is not among the sources. The
  decoder of one value reassembles the integer, divides it by the scale factor (in
  binary32) to recover the reading, and flags the reading as not valid exactly when the
  reassembled integer equals the sentinel pattern. It returns the reading and
  \<open>was_valid\<close>.
\<close>

definition decodeData :: "sensorPortSchema \<Rightarrow> uint8_t list \<Rightarrow> float32 \<times> bool" where
  "decodeData s bs =
     (fdiv (round_f32 (reassemble s bs) 0) (scale_factor s),
      reassemble s bs \<noteq> sentinel_value s)"

text \<open>
  An integer fits a field when the codec's bytes hold it: as an unsigned number of
  \<open>value_width\<close> bytes, or in two's complement for a signed codec.
\<close>

definition fits_field :: "sensorPortSchema \<Rightarrow> int \<Rightarrow> bool" where
  "fits_field s t \<longleftrightarrow>
     (if is_signed s
      then - (256 ^ value_width s) \<le> 2 * t \<and> 2 * t < 256 ^ value_width s
      else 0 \<le> t \<and> t < 256 ^ value_width s)"

section \<open>Checks of the binary32 model\<close>

text \<open>
  Known binary32 facts: \<open>2 ^ 24 + 1\<close> is not representable and rounds to the even
  neighbour \<open>2 ^ 24\<close>, \<open>2 ^ 24 + 3\<close> rounds up to \<open>2 ^ 24 + 4\<close>; the \<open>float\<close> nearest to
  one tenth has the significand \<open>0xCCCCCD\<close>; the largest finite number is
  \<open>(2 ^ 24 - 1) * 2 ^ 104\<close>, and rounding at or above \<open>2 ^ 128 - 2 ^ 103\<close> overflows; half
  of the least subnormal rounds to zero.
\<close>

lemma round_f32_ties_to_even:
  "round_f32 16777217 0 = Finite 8388608 1" "round_f32 16777219 0 = Finite 8388610 1"
  by code_simp+

lemma fdiv_one_tenth: "fdiv (Finite 1 0) (Finite 10 0) = Finite 0xCCCCCD (- 27)"
  by code_simp

lemma round_f32_overflow:
  "round_f32 (2 ^ 24 - 1) 104 = Finite (2 ^ 24 - 1) 104" "round_f32 (2 ^ 25 - 1) 103 = NonFinite"
  by code_simp+

lemma round_f32_underflow:
  "round_f32 1 (- 150) = Finite 0 (- 149)" "round_f32 3 (- 150) = Finite 2 (- 149)"
  by code_simp+

text \<open>Zero stays zero whatever exponent it is written with.\<close>

lemma fmul_zero: "fmul (Finite 0 100) (Finite 1 100) = Finite 0 200"
  by code_simp

text \<open>
  Rounding in general: a finite result has a significand of at most 24 bits
  (\<open>2 ^ 24\<close> itself standing for \<open>2 ^ 23\<close> at the next exponent) at an exponent of at
  least \<open>-149\<close>, and it differs from the exact value by at most half a unit of its
  last place.
\<close>

lemma bitlen_nonneg: "0 \<le> bitlen a"
  by (induction a rule: bitlen.induct) (subst bitlen.simps, simp)

lemma bitlen_upper: "a < 2 ^ nat (bitlen a)"
proof (induction a rule: bitlen.induct)
  case (1 n)
  show ?case
  proof (cases "n \<le> 0")
    case True
    then show ?thesis by (subst bitlen.simps) simp
  next
    case False
    then have ih: "n div 2 < 2 ^ nat (bitlen (n div 2))" by (rule "1.IH")
    have b: "bitlen n = 1 + bitlen (n div 2)"
      using False by (subst bitlen.simps) simp
    have "nat (bitlen n) = Suc (nat (bitlen (n div 2)))"
      unfolding b using bitlen_nonneg [of "n div 2"] by simp
    moreover have "n < 2 * (n div 2 + 1)" by simp
    ultimately show ?thesis using ih by simp
  qed
qed

lemma round_f32_close:
  assumes "round_f32 m e = Finite m' e'"
  shows "e \<le> e'" and "- 149 \<le> e'" and "\<bar>m'\<bar> \<le> 2 ^ 24"
    and "2 * \<bar>m' * 2 ^ nat (e' - e) - m\<bar> \<le> 2 ^ nat (e' - e)"
proof -
  define a n E where "a = \<bar>m\<bar>" and "n = bitlen a" and "E = max (e + n - 24) (- 149)"
  define sh q r where "sh = nat (E - e)" and "q = a div 2 ^ sh" and "r = a mod 2 ^ sh"
  define q' where "q' = (if 2 ^ (sh - 1) < r \<or> (r = 2 ^ (sh - 1) \<and> odd q) then q + 1 else q)"
  have unfolded: "round_f32 m e =
      (if E \<le> e then (if m \<noteq> 0 \<and> 128 < e + n then NonFinite else Finite m e)
       else if 128 < E + bitlen q' then NonFinite else Finite (sgn m * q') E)"
    by (simp only: round_f32_def Let_def a_def n_def E_def sh_def q_def r_def q'_def)
  have a: "a < 2 ^ nat n" unfolding n_def by (rule bitlen_upper)
  have a0: "0 \<le> a" by (simp add: a_def)
  have goal: "e \<le> e' \<and> - 149 \<le> e' \<and> \<bar>m'\<bar> \<le> 2 ^ 24
      \<and> 2 * \<bar>m' * 2 ^ nat (e' - e) - m\<bar> \<le> 2 ^ nat (e' - e)"
  proof (cases "E \<le> e")
    case True
    with assms unfolded
    have "(if m \<noteq> 0 \<and> 128 < e + n then NonFinite else Finite m e) = Finite m' e'"
      by simp
    then have r: "m' = m" "e' = e" by (simp_all split: if_splits)
    from True have "n \<le> 24" and "- 149 \<le> e" by (simp_all add: E_def)
    then have "nat n \<le> 24" by simp
    then have "(2 :: int) ^ nat n \<le> 2 ^ 24" by (intro power_increasing) simp_all
    with a have "a < 2 ^ 24" by simp
    with r \<open>- 149 \<le> e\<close> show ?thesis by (simp add: a_def)
  next
    case False
    with assms unfolded
    have "(if 128 < E + bitlen q' then NonFinite else Finite (sgn m * q') E) = Finite m' e'"
      by simp
    then have res: "m' = sgn m * q'" "e' = E" by (simp_all split: if_splits)
    from False have sh: "0 < sh" "int sh = E - e" by (simp_all add: sh_def)
    have pw: "(2 :: int) ^ sh = 2 * 2 ^ (sh - 1)"
      using sh(1) by (cases sh) simp_all
    have decomp: "a = q * 2 ^ sh + r"
      unfolding q_def r_def by (rule div_mult_mod_eq [symmetric])
    have r0: "0 \<le> r" "r < 2 ^ sh" by (simp_all add: r_def)
    have q0: "0 \<le> q" using a0 by (simp add: q_def pos_imp_zdiv_nonneg_iff)
    have qq: "q' = q \<or> q' = q + 1" by (simp add: q'_def)
    have close: "2 * \<bar>q' * 2 ^ sh - a\<bar> \<le> 2 ^ sh"
    proof (cases "2 ^ (sh - 1) < r \<or> (r = 2 ^ (sh - 1) \<and> odd q)")
      case True
      then have "q' = q + 1" and "2 ^ (sh - 1) \<le> r" by (auto simp add: q'_def)
      then have "q' * 2 ^ sh - a = 2 ^ sh - r" and "2 ^ sh \<le> 2 * r"
        using decomp pw by (simp_all add: algebra_simps)
      then show ?thesis using r0 by simp
    next
      case False
      then have "q' = q" and "r \<le> 2 ^ (sh - 1)" by (auto simp add: q'_def)
      then have "q' * 2 ^ sh - a = - r" and "2 * r \<le> 2 ^ sh"
        using decomp pw by (simp_all add: algebra_simps)
      then show ?thesis using r0 by simp
    qed
    have bound: "q' \<le> 2 ^ 24"
    proof -
      have "nat n \<le> sh + 24" using sh(2) by (simp add: E_def)
      then have "(2 :: int) ^ nat n \<le> 2 ^ (sh + 24)" by (intro power_increasing) simp_all
      with a have "a < 2 ^ 24 * 2 ^ sh" by (simp add: power_add mult.commute)
      then have "a < 2 ^ 24 * 2 ^ sh" .
      moreover have "q * 2 ^ sh \<le> a" using decomp r0(1) by linarith
      ultimately have "q * 2 ^ sh < 2 ^ 24 * 2 ^ sh" by (rule le_less_trans [rotated])
      then have "q < 2 ^ 24" by (simp only: mult_less_cancel_right) simp
      with qq show ?thesis by auto
    qed
    have q'0: "0 \<le> q'" using qq q0 by auto
    have m'abs: "\<bar>m'\<bar> \<le> 2 ^ 24"
      unfolding res using bound q'0 by (cases "m = 0") (simp_all add: abs_mult)
    have "\<bar>m' * 2 ^ sh - m\<bar> \<le> \<bar>q' * 2 ^ sh - a\<bar>"
    proof (cases "m < 0")
      case True
      then have "m' * 2 ^ sh - m = - (q' * 2 ^ sh - a)"
        unfolding res a_def by simp
      then show ?thesis by simp
    next
      case False
      show ?thesis
      proof (cases "m = 0")
        case True
        then show ?thesis unfolding res by simp
      next
        case nz: False
        with False have "0 < m" by simp
        then have "m' * 2 ^ sh - m = q' * 2 ^ sh - a"
          unfolding res a_def by simp
        then show ?thesis by simp
      qed
    qed
    with close have "2 * \<bar>m' * 2 ^ sh - m\<bar> \<le> 2 ^ sh" by simp
    moreover have "nat (e' - e) = sh" using res(2) by (simp add: sh_def)
    moreover have "e \<le> e'" using False res(2) by simp
    moreover have "- 149 \<le> e'" unfolding res(2) E_def by simp
    ultimately show ?thesis using m'abs by simp
  qed
  from goal show "e \<le> e'" and "- 149 \<le> e'" and "\<bar>m'\<bar> \<le> 2 ^ 24"
    and "2 * \<bar>m' * 2 ^ nat (e' - e) - m\<bar> \<le> 2 ^ nat (e' - e)"
    by simp_all
qed

section \<open>The model rounds as the standard says\<close>

text \<open>Powers of two with an integer exponent.\<close>

lemma valof_powi: "valof (Finite m e) = of_int m * 2 powi e"
proof (cases "0 \<le> e")
  case True
  then show ?thesis by (simp add: valof_def power_int_nonneg_exp)
next
  case False
  then have "0 \<le> - e" by simp
  then have "(2::rat) powi (- e) = 2 ^ nat (- e)" by (rule power_int_nonneg_exp)
  moreover have "(2::rat) powi e = inverse (2 powi (- e))"
    using power_int_minus [of "2::rat" "- e"] by simp
  ultimately have "(2::rat) powi e = inverse (2 ^ nat (- e))" by simp
  with False show ?thesis by (simp add: valof_def divide_inverse)
qed

lemma powi_le: "a \<le> b \<Longrightarrow> (2::rat) powi a \<le> 2 powi b"
  by (rule power_int_increasing) simp_all

lemma powi_less: "a < b \<Longrightarrow> (2::rat) powi a < 2 powi b"
  by (rule power_int_strict_increasing) simp_all

lemma powi_le_D: "(2::rat) powi a \<le> 2 powi b \<Longrightarrow> a \<le> b"
  using powi_less [of b a] by (cases "a \<le> b") simp_all

lemma powi_less_D: "(2::rat) powi a < 2 powi b \<Longrightarrow> a < b"
  using powi_le [of b a] by (cases "a < b") simp_all

lemma powi_add: "(2::rat) powi (a + b) = 2 powi a * 2 powi b"
  by (rule power_int_add) simp

lemma powi_shift: "e \<le> E \<Longrightarrow> (2::rat) powi E = 2 powi e * 2 ^ nat (E - e)"
  using powi_add [of e "E - e"] by (simp add: power_int_nonneg_exp)

text \<open>The standard's rounding determines the significand and the exponent.\<close>

lemma nearest_even_unique:
  assumes "nearest_even x m1 e1" and "nearest_even x m2 e2"
  shows "e1 = e2" and "m1 = m2"
proof -
  have le: "e1' \<le> e2'" if a: "nearest_even x m1' e1'" and b: "nearest_even x m2' e2'"
    for m1' e1' m2' e2' :: int
  proof (rule ccontr)
    assume "\<not> e1' \<le> e2'"
    then have lt: "e2' < e1'" by simp
    from b have "- 149 \<le> e2'" by (simp add: nearest_even_def)
    with lt a have "2 powi (e1' + 23) \<le> \<bar>x\<bar>" by (auto simp add: nearest_even_def)
    moreover from b have "\<bar>x\<bar> < 2 powi (e2' + 24)" by (simp add: nearest_even_def)
    ultimately have "(2::rat) powi (e1' + 23) < 2 powi (e2' + 24)" by simp
    then have "e1' + 23 < e2' + 24" by (rule powi_less_D)
    with lt show False by simp
  qed
  show e: "e1 = e2" using le [OF assms] le [OF assms(2,1)] by simp
  define c where "c = (2::rat) powi e1"
  have c: "0 < c" by (simp add: c_def)
  from assms(1) have h1: "2 * \<bar>of_int m1 * c - x\<bar> \<le> c" "2 * \<bar>of_int m1 * c - x\<bar> = c \<longrightarrow> even m1"
    by (simp_all add: nearest_even_def c_def)
  from assms(2) e have h2: "2 * \<bar>of_int m2 * c - x\<bar> \<le> c" "2 * \<bar>of_int m2 * c - x\<bar> = c \<longrightarrow> even m2"
    by (simp_all add: nearest_even_def c_def)
  show "m1 = m2"
  proof (rule ccontr)
    assume ne: "m1 \<noteq> m2"
    define u v where "u = of_int m1 * c" and "v = of_int m2 * c"
    note h = h1 h2
    have "\<bar>u - v\<bar> \<le> c" using h1(1) h2(1) unfolding u_def [symmetric] v_def [symmetric]
      by (auto simp add: abs_if split: if_splits)
    then have "\<bar>of_int m1 * c - of_int m2 * c\<bar> \<le> c" by (simp add: u_def v_def)
    then have "\<bar>of_int (m1 - m2) :: rat\<bar> * c \<le> 1 * c"
      using c by (simp add: abs_mult left_diff_distrib [symmetric])
    then have "\<bar>of_int (m1 - m2) :: rat\<bar> \<le> 1"
      using c by (simp only: mult_le_cancel_right)
    then have "\<bar>m1 - m2\<bar> \<le> 1" by (simp only: of_int_abs [symmetric] of_int_le_1_iff)
    with ne have d: "m1 = m2 + 1 \<or> m2 = m1 + 1" by arith
    have "u = v + c \<or> v = u + c"
      using d by (auto simp add: algebra_simps u_def v_def)
    with h1(1) h2(1) c have "2 * \<bar>u - x\<bar> = c \<and> 2 * \<bar>v - x\<bar> = c"
      unfolding u_def [symmetric] v_def [symmetric] by (auto simp add: abs_if split: if_splits)
    then have "2 * \<bar>of_int m1 * c - x\<bar> = c \<and> 2 * \<bar>of_int m2 * c - x\<bar> = c"
      by (simp add: u_def v_def)
    with h1(2) h2(2) have "even m1" "even m2" by simp_all
    with d show False by auto
  qed
qed

text \<open>
  The quantities that \<open>round_f32\<close> computes: \<open>bitlen\<close> locates the binade, and the
  quotient corrected by the remainder is the nearest multiple, even on a tie.
\<close>

lemma bitlen_pos: "0 < a \<Longrightarrow> 1 \<le> bitlen a"
  using bitlen_nonneg [of "a div 2"] by (subst bitlen.simps) simp

lemma bitlen_lower: "0 < a \<Longrightarrow> 2 ^ nat (bitlen a - 1) \<le> a"
proof (induction a rule: bitlen.induct)
  case (1 n)
  from 1(2) have b: "bitlen n = 1 + bitlen (n div 2)" by (subst bitlen.simps) simp
  show ?case
  proof (cases "n div 2 \<le> 0")
    case True
    then have "bitlen (n div 2) = 0" by (subst bitlen.simps) simp
    with b 1(2) show ?thesis by simp
  next
    case False
    then have pos: "0 < n div 2" by simp
    with 1 have ih: "2 ^ nat (bitlen (n div 2) - 1) \<le> n div 2" by simp
    have "nat (bitlen n - 1) = Suc (nat (bitlen (n div 2) - 1))"
      unfolding b using bitlen_pos [OF pos] by simp
    moreover have "2 * (n div 2) \<le> n" by simp
    ultimately show ?thesis using ih by simp
  qed
qed

lemma scaled_bounds:
  assumes "0 < k"
  shows "(2::rat) powi (E + bitlen k - 1) \<le> of_int k * 2 powi E"
    and "of_int k * (2::rat) powi E < 2 powi (E + bitlen k)"
proof -
  have p: "0 < (2::rat) powi E" by simp
  have b: "0 \<le> bitlen k - 1" "0 \<le> bitlen k" using bitlen_pos [OF assms] by simp_all
  have "(2::rat) powi (E + bitlen k - 1) = 2 powi E * 2 ^ nat (bitlen k - 1)"
    using powi_shift [of E "E + bitlen k - 1"] b by simp
  also have "\<dots> = 2 powi E * of_int (2 ^ nat (bitlen k - 1))" by simp
  also have "\<dots> \<le> 2 powi E * of_int k"
  proof (rule mult_left_mono)
    show "(of_int (2 ^ nat (bitlen k - 1)) :: rat) \<le> of_int k"
      using bitlen_lower [OF assms] by (simp only: of_int_le_iff)
    show "0 \<le> (2::rat) powi E" by simp
  qed
  finally show "(2::rat) powi (E + bitlen k - 1) \<le> of_int k * 2 powi E" by (simp add: mult.commute)
  have "of_int k * (2::rat) powi E < of_int (2 ^ nat (bitlen k)) * 2 powi E"
    using bitlen_upper [of k] p by (intro mult_strict_right_mono) (simp_all only: of_int_less_iff)
  also have "\<dots> = 2 powi (E + bitlen k)"
    using powi_shift [of E "E + bitlen k"] b by simp
  finally show "of_int k * (2::rat) powi E < 2 powi (E + bitlen k)" .
qed

lemma half_even_int:
  fixes a :: int and sh :: nat
  assumes "0 \<le> a" and "0 < sh"
    and "q = a div 2 ^ sh" and "r = a mod 2 ^ sh"
    and "q' = (if 2 ^ (sh - 1) < r \<or> (r = 2 ^ (sh - 1) \<and> odd q) then q + 1 else q)"
  shows "2 * \<bar>q' * 2 ^ sh - a\<bar> \<le> 2 ^ sh"
    and "2 * \<bar>q' * 2 ^ sh - a\<bar> = 2 ^ sh \<Longrightarrow> even q'"
    and "0 \<le> q'"
proof -
  have pw: "(2 :: int) ^ sh = 2 * 2 ^ (sh - 1)"
    using assms(2) by (cases sh) simp_all
  have decomp: "a = q * 2 ^ sh + r"
    unfolding assms(3,4) by (rule div_mult_mod_eq [symmetric])
  have r0: "0 \<le> r" "r < 2 ^ sh" by (simp_all add: assms(4))
  have q0: "0 \<le> q" using assms(1) by (simp add: assms(3) pos_imp_zdiv_nonneg_iff)
  show "0 \<le> q'" using q0 by (simp add: assms(5))
  have both: "2 * \<bar>q' * 2 ^ sh - a\<bar> \<le> 2 ^ sh \<and> (2 * \<bar>q' * 2 ^ sh - a\<bar> = 2 ^ sh \<longrightarrow> even q')"
  proof (cases "2 ^ (sh - 1) < r \<or> (r = 2 ^ (sh - 1) \<and> odd q)")
    case True
    then have q': "q' = q + 1" and "2 ^ (sh - 1) \<le> r" by (auto simp add: assms(5))
    then have d: "q' * 2 ^ sh - a = 2 ^ sh - r" and "2 ^ sh \<le> 2 * r"
      using decomp pw by (simp_all add: algebra_simps)
    then have le: "2 * \<bar>q' * 2 ^ sh - a\<bar> \<le> 2 ^ sh" using r0 by simp
    have "even q'" if "2 * \<bar>q' * 2 ^ sh - a\<bar> = 2 ^ sh"
    proof -
      from that d r0 have "2 * r = 2 ^ sh" by simp
      with pw have "r = 2 ^ (sh - 1)" by simp
      with True have "odd q" by auto
      with q' show ?thesis by simp
    qed
    with le show ?thesis by simp
  next
    case False
    then have q': "q' = q" and "r \<le> 2 ^ (sh - 1)" by (auto simp add: assms(5))
    then have d: "q' * 2 ^ sh - a = - r" and "2 * r \<le> 2 ^ sh"
      using decomp pw by (simp_all add: algebra_simps)
    then have le: "2 * \<bar>q' * 2 ^ sh - a\<bar> \<le> 2 ^ sh" using r0 by simp
    have "even q'" if "2 * \<bar>q' * 2 ^ sh - a\<bar> = 2 ^ sh"
    proof -
      from that d r0 have "2 * r = 2 ^ sh" by simp
      with pw have "r = 2 ^ (sh - 1)" by simp
      with False have "even q" by auto
      with q' show ?thesis by simp
    qed
    with le show ?thesis by simp
  qed
  then show "2 * \<bar>q' * 2 ^ sh - a\<bar> \<le> 2 ^ sh"
    and "2 * \<bar>q' * 2 ^ sh - a\<bar> = 2 ^ sh \<Longrightarrow> even q'" by simp_all
qed


lemma abs_scaled: "\<bar>of_int k * 2 powi E :: rat\<bar> = of_int \<bar>k\<bar> * 2 powi E"
  by (simp add: abs_mult)

lemma bitlen_zero: "bitlen 0 = 0"
  by (subst bitlen.simps) simp

lemma nearest_even_zero: "nearest_even 0 0 (- 149)"
  by (simp add: nearest_even_def)

lemma overflow_check:
  assumes "0 < k"
  shows "of_int k * (2::rat) powi E < 2 ^ 128 \<longleftrightarrow> \<not> 128 < E + bitlen k"
proof (cases "128 < E + bitlen k")
  case True
  then have "(2::rat) powi 128 \<le> 2 powi (E + bitlen k - 1)" by (intro powi_le) simp
  also note scaled_bounds(1) [OF assms, of E]
  finally have "(2::rat) ^ 128 \<le> of_int k * 2 powi E" by simp
  with True show ?thesis by simp
next
  case False
  note scaled_bounds(2) [OF assms, of E]
  also have "(2::rat) powi (E + bitlen k) \<le> 2 powi 128" using False by (intro powi_le) simp
  finally have "of_int k * (2::rat) powi E < 2 ^ 128" by simp
  with False show ?thesis by simp
qed

lemma binade_of_bitlen:
  assumes "m \<noteq> 0" and "E = max (e + bitlen \<bar>m\<bar> - 24) (- 149)"
  shows "- 149 \<le> E"
    and "E = - 149 \<or> 2 powi (E + 23) \<le> \<bar>of_int m * 2 powi e :: rat\<bar>"
    and "\<bar>of_int m * 2 powi e :: rat\<bar> < 2 powi (E + 24)"
proof -
  from assms(1) have a: "0 < \<bar>m\<bar>" by simp
  have ab: "\<bar>of_int m * 2 powi e :: rat\<bar> = of_int \<bar>m\<bar> * 2 powi e" by (simp add: abs_mult)
  note sb = scaled_bounds [OF a, of e]
  show "- 149 \<le> E" by (simp add: assms(2))
  show "E = - 149 \<or> 2 powi (E + 23) \<le> \<bar>of_int m * 2 powi e :: rat\<bar>"
  proof (cases "E = - 149")
    case True
    then show ?thesis by simp
  next
    case False
    then have eq: "e + bitlen \<bar>m\<bar> - 1 = E + 23"
      by (simp add: assms(2) max_def split: if_splits)
    have "(2::rat) powi (E + 23) \<le> of_int \<bar>m\<bar> * 2 powi e"
      using sb(1) by (simp only: eq)
    then show ?thesis unfolding ab by (rule disjI2)
  qed
  have "e + bitlen \<bar>m\<bar> \<le> E + 24" by (simp add: assms(2))
  then have "(2::rat) powi (e + bitlen \<bar>m\<bar>) \<le> 2 powi (E + 24)" by (rule powi_le)
  with sb(2) show "\<bar>of_int m * 2 powi e :: rat\<bar> < 2 powi (E + 24)" unfolding ab by simp
qed

lemma exact_candidate:
  assumes "m \<noteq> 0" and "E = max (e + bitlen \<bar>m\<bar> - 24) (- 149)" and "E \<le> e"
  shows "of_int (m * 2 ^ nat (e - E)) * (2::rat) powi E = of_int m * 2 powi e"
    and "nearest_even (of_int m * 2 powi e) (m * 2 ^ nat (e - E)) E"
proof -
  show v: "of_int (m * 2 ^ nat (e - E)) * (2::rat) powi E = of_int m * 2 powi e"
    using powi_shift [OF assms(3)] by simp
  show "nearest_even (of_int m * 2 powi e) (m * 2 ^ nat (e - E)) E"
    unfolding nearest_even_def v using binade_of_bitlen [OF assms(1,2)] by simp
qed

lemma rounded_candidate:
  assumes "m \<noteq> 0" and "E = max (e + bitlen \<bar>m\<bar> - 24) (- 149)" and "e < E"
    and "sh = nat (E - e)" and "q = \<bar>m\<bar> div 2 ^ sh" and "r = \<bar>m\<bar> mod 2 ^ sh"
    and "q' = (if 2 ^ (sh - 1) < r \<or> (r = 2 ^ (sh - 1) \<and> odd q) then q + 1 else q)"
  shows "nearest_even (of_int m * 2 powi e) (sgn m * q') E"
    and "\<bar>of_int (sgn m * q') * 2 powi E :: rat\<bar> = of_int q' * 2 powi E"
proof -
  have sh: "0 < sh" using assms(3,4) by simp
  have a0: "0 \<le> \<bar>m\<bar>" by simp
  note he = half_even_int [OF a0 sh assms(5,6,7)]
  have pE: "(2::rat) powi E = 2 powi e * 2 ^ sh"
    using powi_shift [of e E] assms(3,4) by simp
  define mc where "mc = sgn m * q'"
  define c where "c = (2::rat) powi e"
  have c: "0 < c" by (simp add: c_def)
  have d: "\<bar>mc * 2 ^ sh - m\<bar> = \<bar>q' * 2 ^ sh - \<bar>m\<bar>\<bar>"
  proof (cases "m < 0")
    case True
    then have "mc * 2 ^ sh - m = - (q' * 2 ^ sh - \<bar>m\<bar>)" by (simp add: mc_def)
    then show ?thesis by simp
  next
    case False
    with assms(1) have "0 < m" by simp
    then have "mc * 2 ^ sh - m = q' * 2 ^ sh - \<bar>m\<bar>" by (simp add: mc_def)
    then show ?thesis by simp
  qed
  have "of_int mc * 2 powi E - of_int m * 2 powi e = of_int (mc * 2 ^ sh - m) * c"
    by (simp add: pE c_def algebra_simps)
  then have "2 * \<bar>of_int mc * 2 powi E - of_int m * 2 powi e\<bar>
      = of_int (2 * \<bar>mc * 2 ^ sh - m\<bar>) * c"
    using c by (simp add: abs_mult)
  then have dd: "2 * \<bar>of_int mc * 2 powi E - of_int m * 2 powi e\<bar>
      = of_int (2 * \<bar>q' * 2 ^ sh - \<bar>m\<bar>\<bar>) * c"
    by (simp only: d)
  have pE': "(2::rat) powi E = of_int (2 ^ sh) * c" by (simp add: pE c_def)
  have "(of_int (2 * \<bar>q' * 2 ^ sh - \<bar>m\<bar>\<bar>) :: rat) * c \<le> of_int (2 ^ sh) * c"
  proof (rule mult_right_mono)
    show "(of_int (2 * \<bar>q' * 2 ^ sh - \<bar>m\<bar>\<bar>) :: rat) \<le> of_int (2 ^ sh)"
      using he(1) by (simp only: of_int_le_iff)
    show "0 \<le> c" using c by simp
  qed
  then have half: "2 * \<bar>of_int mc * 2 powi E - of_int m * 2 powi e\<bar> \<le> (2::rat) powi E"
    by (simp only: dd pE' [symmetric])
  have tie: "even mc" if "2 * \<bar>of_int mc * 2 powi E - of_int m * 2 powi e\<bar> = (2::rat) powi E"
  proof -
    from that [unfolded dd]
    have "(of_int (2 * \<bar>q' * 2 ^ sh - \<bar>m\<bar>\<bar>) :: rat) * c = of_int (2 ^ sh) * c"
      by (simp only: pE')
    with c have "(of_int (2 * \<bar>q' * 2 ^ sh - \<bar>m\<bar>\<bar>) :: rat) = of_int (2 ^ sh)"
      by (simp only: mult_cancel_right) simp
    then have "2 * \<bar>q' * 2 ^ sh - \<bar>m\<bar>\<bar> = 2 ^ sh" by (simp only: of_int_eq_iff)
    then have "even q'" by (rule he(2))
    then show ?thesis by (simp add: mc_def)
  qed
  show "nearest_even (of_int m * 2 powi e) (sgn m * q') E"
    unfolding nearest_even_def mc_def [symmetric]
    using binade_of_bitlen [OF assms(1,2)] half tie by simp
  have "\<bar>sgn m * q'\<bar> = q'"
    using he(3) assms(1) by (simp add: abs_mult abs_sgn_eq)
  moreover have "\<bar>of_int (sgn m * q') * 2 powi E :: rat\<bar> = of_int \<bar>sgn m * q'\<bar> * 2 powi E"
    by (rule abs_scaled)
  ultimately show "\<bar>of_int (sgn m * q') * 2 powi E :: rat\<bar> = of_int q' * 2 powi E"
    by simp
qed

text \<open>
  \<open>round_f32\<close> returns the standard's rounding of \<open>m * 2 ^ e\<close> when that is below
  \<open>2 ^ 128\<close> in magnitude, and \<open>NonFinite\<close> otherwise.
\<close>

lemma round_f32_spec:
  "\<exists>mc ec. nearest_even (of_int m * 2 powi e) mc ec \<and>
      (if \<bar>of_int mc * (2::rat) powi ec\<bar> < 2 ^ 128
       then \<exists>m' e'. round_f32 m e = Finite m' e'
              \<and> (of_int m' * 2 powi e' :: rat) = of_int mc * 2 powi ec
       else round_f32 m e = NonFinite)"
proof -
  define a n E where "a = \<bar>m\<bar>" and "n = bitlen a" and "E = max (e + n - 24) (- 149)"
  define sh q r where "sh = nat (E - e)" and "q = a div 2 ^ sh" and "r = a mod 2 ^ sh"
  define q' where "q' = (if 2 ^ (sh - 1) < r \<or> (r = 2 ^ (sh - 1) \<and> odd q) then q + 1 else q)"
  have unfolded: "round_f32 m e =
      (if E \<le> e then (if m \<noteq> 0 \<and> 128 < e + n then NonFinite else Finite m e)
       else if 128 < E + bitlen q' then NonFinite else Finite (sgn m * q') E)"
    by (simp only: round_f32_def Let_def a_def n_def E_def sh_def q_def r_def q'_def)
  have E: "E = max (e + bitlen \<bar>m\<bar> - 24) (- 149)" by (simp add: E_def n_def a_def)
  show ?thesis
  proof (cases "m = 0")
    case True
    then have z: "a = 0" "n = 0" "q = 0" "r = 0" by (simp_all add: a_def n_def bitlen_zero q_def r_def)
    then have q': "q' = 0" by (simp add: q'_def)
    have "E \<le> e \<or> E = - 149" using z by (auto simp add: E_def)
    then have "\<exists>e'. round_f32 m e = Finite 0 e'"
      unfolding unfolded using True q' by (auto simp add: bitlen_zero)
    then obtain e' where "round_f32 m e = Finite 0 e'" ..
    then have "\<exists>m' e'. round_f32 m e = Finite m' e'
        \<and> (of_int m' * 2 powi e' :: rat) = of_int 0 * 2 powi (- 149)"
      by simp
    with nearest_even_zero True show ?thesis
      by (intro exI [of _ 0] exI [of _ "- 149"]) simp
  next
    case nz: False
    then have a: "0 < a" by (simp add: a_def)
    show ?thesis
    proof (cases "E \<le> e")
      case True
      note ec = exact_candidate [OF nz E True]
      have ab: "\<bar>of_int m * 2 powi e :: rat\<bar> = of_int a * 2 powi e" by (simp add: abs_mult a_def)
      have chk: "\<bar>of_int m * 2 powi e :: rat\<bar> < 2 ^ 128 \<longleftrightarrow> \<not> 128 < e + n"
        unfolding ab n_def by (rule overflow_check [OF a])
      have "if \<bar>of_int (m * 2 ^ nat (e - E)) * (2::rat) powi E\<bar> < 2 ^ 128
            then \<exists>m' e'. round_f32 m e = Finite m' e'
                   \<and> (of_int m' * 2 powi e' :: rat) = of_int (m * 2 ^ nat (e - E)) * 2 powi E
            else round_f32 m e = NonFinite"
        unfolding ec(1) chk unfolded using True nz by simp
      with ec(2) show ?thesis by blast
    next
      case False
      then have lt: "e < E" by simp
      note rc = rounded_candidate [OF nz E lt sh_def q_def [unfolded a_def] r_def [unfolded a_def] q'_def]
      have q'0: "0 \<le> q'"
        using half_even_int(3) [OF _ _ q_def r_def q'_def] a lt by (simp add: sh_def)
      have chk: "of_int q' * (2::rat) powi E < 2 ^ 128 \<longleftrightarrow> \<not> 128 < E + bitlen q'"
      proof (cases "q' = 0")
        case True
        have "E = - 149"
        proof (rule ccontr)
          assume "E \<noteq> - 149"
          with rc(1) have l: "2 powi (E + 23) \<le> \<bar>of_int m * 2 powi e :: rat\<bar>"
            by (simp add: nearest_even_def)
          from rc(1) True have "2 * \<bar>of_int m * 2 powi e :: rat\<bar> \<le> 2 powi E"
            by (simp add: nearest_even_def)
          with l have "2 * (2::rat) powi (E + 23) \<le> 2 powi E" by simp
          moreover have "(2::rat) powi E \<le> 2 powi (E + 23)" by (intro powi_le) simp
          moreover have "0 < (2::rat) powi (E + 23)" by simp
          ultimately show False by linarith
        qed
        with True show ?thesis by (simp add: bitlen_zero)
      next
        case False
        with q'0 have "0 < q'" by simp
        then show ?thesis by (rule overflow_check)
      qed
      have "if \<bar>of_int (sgn m * q') * (2::rat) powi E\<bar> < 2 ^ 128
            then \<exists>m' e'. round_f32 m e = Finite m' e'
                   \<and> (of_int m' * 2 powi e' :: rat) = of_int (sgn m * q') * 2 powi E
            else round_f32 m e = NonFinite"
        unfolding rc(2) chk unfolded using False by simp
      with rc(1) show ?thesis by blast
    qed
  qed
qed

lemma round_f32_complete:
  assumes "binary32_rounding (of_int m * 2 powi e) mr er"
  shows "\<exists>m' e'. round_f32 m e = Finite m' e' \<and> valof (Finite m' e') = valof (Finite mr er)"
proof -
  from round_f32_spec [of m e] obtain mc ec
    where c: "nearest_even (of_int m * 2 powi e) mc ec"
      and r: "if \<bar>of_int mc * (2::rat) powi ec\<bar> < 2 ^ 128
              then \<exists>m' e'. round_f32 m e = Finite m' e'
                     \<and> (of_int m' * 2 powi e' :: rat) = of_int mc * 2 powi ec
              else round_f32 m e = NonFinite"
    by blast
  from assms have n: "nearest_even (of_int m * 2 powi e) mr er"
    and f: "\<bar>of_int mr * (2::rat) powi er\<bar> < 2 ^ 128"
    by (simp_all add: binary32_rounding_def)
  from nearest_even_unique [OF c n] have "ec = er" "mc = mr" .
  with r f show ?thesis by (simp add: valof_powi)
qed

lemma round_f32_sound:
  assumes "round_f32 m e = Finite m' e'"
  shows "\<exists>mr er. binary32_rounding (of_int m * 2 powi e) mr er
           \<and> valof (Finite m' e') = valof (Finite mr er)"
proof -
  from round_f32_spec [of m e] obtain mc ec
    where c: "nearest_even (of_int m * 2 powi e) mc ec"
      and r: "if \<bar>of_int mc * (2::rat) powi ec\<bar> < 2 ^ 128
              then \<exists>m' e'. round_f32 m e = Finite m' e'
                     \<and> (of_int m' * 2 powi e' :: rat) = of_int mc * 2 powi ec
              else round_f32 m e = NonFinite"
    by blast
  from r assms have "\<bar>of_int mc * (2::rat) powi ec\<bar> < 2 ^ 128
      \<and> (of_int m' * 2 powi e' :: rat) = of_int mc * 2 powi ec"
    by (auto split: if_splits)
  with c show ?thesis unfolding binary32_rounding_def valof_powi by blast
qed

text \<open>
  The rounding error: at most \<open>2 ^ -24\<close> of the magnitude in the normal range, at most
  \<open>2 ^ -150\<close> below it.
\<close>

lemma nearest_even_error:
  assumes "nearest_even x m e"
  shows "\<bar>of_int m * 2 powi e - x\<bar> \<le> \<bar>x\<bar> / 2 ^ 24 + 1 / 2 ^ 150"
proof -
  define d ax where "d = \<bar>of_int m * 2 powi e - x\<bar>" and "ax = \<bar>x\<bar>"
  have ax: "0 \<le> ax" by (simp add: ax_def)
  from assms have h: "2 * d \<le> 2 powi e"
    and b: "e = - 149 \<or> 2 powi (e + 23) \<le> ax"
    by (simp_all add: nearest_even_def d_def ax_def)
  from b have "d \<le> ax / 2 ^ 24 + 1 / 2 ^ 150"
  proof
    assume "e = - 149"
    with h have "2 * d \<le> 1 / 2 ^ 149"
      by (simp add: power_int_minus_divide)
    with ax show ?thesis by simp
  next
    assume "2 powi (e + 23) \<le> ax"
    then have "2 powi e * 2 ^ 23 \<le> ax" by (simp add: powi_add)
    with h have "2 * d * 2 ^ 23 \<le> ax" by simp
    then show ?thesis by simp
  qed
  then show ?thesis by (simp only: d_def ax_def)
qed

lemma nearest_even_error_normal:
  assumes "nearest_even x m e" and "x = 0 \<or> 1 \<le> \<bar>x\<bar>"
  shows "\<bar>of_int m * 2 powi e - x\<bar> \<le> \<bar>x\<bar> / 2 ^ 24"
proof (cases "x = 0")
  case True
  from nearest_even_unique [OF assms(1) [unfolded True] nearest_even_zero]
  show ?thesis using True by simp
next
  case False
  define d ax where "d = \<bar>of_int m * 2 powi e - x\<bar>" and "ax = \<bar>x\<bar>"
  from assms(1) have h: "2 * d \<le> 2 powi e"
    and b: "e = - 149 \<or> 2 powi (e + 23) \<le> ax"
    and u: "ax < 2 powi (e + 24)"
    by (simp_all add: nearest_even_def d_def ax_def)
  from False assms(2) have "1 \<le> ax" by (simp add: ax_def)
  with u have "(2::rat) powi 0 < 2 powi (e + 24)" by simp
  then have "0 < e + 24" by (rule powi_less_D)
  with b have "2 powi (e + 23) \<le> ax" by auto
  then have "2 powi e * 2 ^ 23 \<le> ax" by (simp add: powi_add)
  with h have "2 * d * 2 ^ 23 \<le> ax" by simp
  then have "d \<le> ax / 2 ^ 24" by simp
  then show ?thesis by (simp only: d_def ax_def)
qed

lemma round_f32_finite:
  assumes "\<bar>of_int m * 2 powi e :: rat\<bar> < 2 ^ 127"
  shows "\<exists>m' e' mr er. round_f32 m e = Finite m' e'
           \<and> nearest_even (of_int m * 2 powi e) mr er
           \<and> valof (Finite m' e') = of_int mr * 2 powi er"
proof -
  let ?x = "of_int m * 2 powi e :: rat"
  from round_f32_spec [of m e] obtain mc ec
    where c: "nearest_even ?x mc ec"
      and r: "if \<bar>of_int mc * (2::rat) powi ec\<bar> < 2 ^ 128
              then \<exists>m' e'. round_f32 m e = Finite m' e'
                     \<and> (of_int m' * 2 powi e' :: rat) = of_int mc * 2 powi ec
              else round_f32 m e = NonFinite"
    by blast
  have "\<bar>of_int mc * 2 powi ec\<bar> \<le> \<bar>of_int mc * 2 powi ec - ?x\<bar> + \<bar>?x\<bar>"
    by (rule abs_triangle_ineq4 [of "of_int mc * 2 powi ec - ?x" "- ?x", simplified])
  with nearest_even_error [OF c] assms
  have "\<bar>of_int mc * (2::rat) powi ec\<bar> < 2 ^ 128" by simp
  with r obtain m' e' where "round_f32 m e = Finite m' e'"
    and "(of_int m' * 2 powi e' :: rat) = of_int mc * 2 powi ec"
    by auto
  with c show ?thesis by (auto simp add: valof_powi)
qed

section \<open>Division\<close>

text \<open>
  \<open>fdiv\<close> rounds a significand that is within \<open>2 ^ -27\<close> of the exact quotient, so the
  result is within \<open>2 ^ -23\<close> of it (and \<open>2 ^ -150\<close> below the normal range).
\<close>

lemma quotient_bits:
  assumes "0 < A" and "0 < B" and "k = nat (max 0 (27 + bitlen B - bitlen A))"
  shows "2 ^ 26 * B \<le> A * 2 ^ k"
proof -
  have "int (26 + nat (bitlen B)) \<le> int (nat (bitlen A - 1) + k)"
    using bitlen_pos [OF assms(1)] bitlen_nonneg [of B] by (simp add: assms(3))
  then have le: "26 + nat (bitlen B) \<le> nat (bitlen A - 1) + k" by (simp only: of_nat_le_iff)
  have "2 ^ 26 * B \<le> 2 ^ 26 * 2 ^ nat (bitlen B)"
    using bitlen_upper [of B] by simp
  also have "\<dots> = 2 ^ (26 + nat (bitlen B))" by (simp only: power_add)
  also have "\<dots> \<le> 2 ^ (nat (bitlen A - 1) + k)"
    using le by (intro power_increasing) simp_all
  also have "\<dots> = 2 ^ nat (bitlen A - 1) * 2 ^ k" by (simp only: power_add)
  also have "\<dots> \<le> A * 2 ^ k"
    using bitlen_lower [OF assms(1)] by (intro mult_right_mono) simp_all
  finally show ?thesis .
qed

lemma signed_quotient:
  assumes "m2 \<noteq> 0"
  shows "(of_int m1 / of_int m2 :: rat) = of_int (sgn m1 * sgn m2) * (of_int \<bar>m1\<bar> / of_int \<bar>m2\<bar>)"
  using assms by (cases "m1 < 0"; cases "m2 < 0") (auto simp add: sgn_if abs_if)


lemma quotient_error_sum:
  fixes t a b zc ay :: rat
  assumes "t \<le> a + b" and "a \<le> zc / 2 ^ 24 + 1 / 2 ^ 150" and "zc \<le> b + ay"
    and "b \<le> ay / 2 ^ 27" and "0 \<le> ay"
  shows "t \<le> ay / 2 ^ 23 + 1 / 2 ^ 150"
  using assms by simp

lemma fdiv_error:
  assumes "m2 \<noteq> 0"
    and "\<bar>valof (Finite m1 e1) / valof (Finite m2 e2)\<bar> < 3 * 2 ^ 125"
  shows "\<exists>md ed. fdiv (Finite m1 e1) (Finite m2 e2) = Finite md ed
           \<and> \<bar>valof (Finite md ed) - valof (Finite m1 e1) / valof (Finite m2 e2)\<bar>
               \<le> \<bar>valof (Finite m1 e1) / valof (Finite m2 e2)\<bar> / 2 ^ 23 + 1 / 2 ^ 150"
proof -
  define A B where "A = \<bar>m1\<bar>" and "B = \<bar>m2\<bar>"
  define k where "k = nat (max 0 (27 + bitlen B - bitlen A))"
  define n q rr st where "n = A * 2 ^ k" and "q = n div B" and "rr = n mod B"
    and "st = (if rr = 0 then 0 else 1 :: int)"
  define sg where "sg = sgn m1 * sgn m2"
  define z where "z = sg * (2 * q + st)"
  define E0 where "E0 = e1 - e2 - int k - 1"
  define y where "y = valof (Finite m1 e1) / valof (Finite m2 e2)"
  define c where "c = (2::rat) powi E0"
  have fd: "fdiv (Finite m1 e1) (Finite m2 e2) = round_f32 z E0"
    using assms(1)
    by (simp add: fdiv_def Let_def A_def B_def k_def n_def q_def rr_def st_def z_def E0_def sg_def)
  have c: "0 < c" by (simp add: c_def)
  have B: "0 < B" using assms(1) by (simp add: B_def)
  have rB: "0 < (of_int B :: rat)" using B by simp
  have A: "0 \<le> A" by (simp add: A_def)
  have n0: "0 \<le> n" using A by (simp add: n_def)
  have dec: "n = q * B + rr" unfolding q_def rr_def by (rule div_mult_mod_eq [symmetric])
  have rr: "0 \<le> rr" "rr < B" using B by (simp_all add: rr_def)
  have q0: "0 \<le> q" using n0 B by (simp add: q_def pos_imp_zdiv_nonneg_iff)
  define rho where "rho = (of_int (2 * rr) / of_int B :: rat)"
  have "0 < B \<Longrightarrow> (of_int (2 * rr) / of_int B :: rat) < 2"
    using rr(2) by (simp add: pos_divide_less_eq)
  with B have rho: "0 \<le> rho" "rho < 2"
    using rr(1) by (simp_all add: rho_def)
  have rho0: "rr = 0 \<longleftrightarrow> rho = 0" using rB by (simp add: rho_def)
  have frac: "(of_int (2 * n) / of_int B :: rat) = of_int (2 * q) + rho"
    using rB unfolding dec rho_def by (simp add: field_simps)
  have pw: "(2::rat) powi (e1 - e2) = c * 2 ^ (k + 1)"
    using powi_shift [of E0 "e1 - e2"] by (simp add: E0_def c_def nat_add_distrib)
  have "y = (of_int m1 / of_int m2) * ((2::rat) powi e1 / 2 powi e2)"
    by (simp add: y_def valof_powi)
  also have "(2::rat) powi e1 / 2 powi e2 = 2 powi (e1 - e2)"
    by (rule power_int_diff [symmetric]) simp
  also have "(of_int m1 / of_int m2 :: rat) = of_int sg * (of_int A / of_int B)"
    unfolding sg_def A_def B_def by (rule signed_quotient [OF assms(1)])
  finally have "y = of_int sg * (of_int A / of_int B) * (c * 2 ^ (k + 1))"
    by (simp only: pw)
  also have "\<dots> = of_int sg * (of_int (2 * n) / of_int B) * c"
    by (simp add: n_def)
  finally have y: "y = of_int sg * (of_int (2 * q) + rho) * c"
    by (simp only: frac)
  have zv: "of_int z * c = of_int sg * (of_int (2 * q) + of_int st) * c"
    by (simp add: z_def)
  have diff: "of_int z * c - y = of_int sg * c * (of_int st - rho)"
    unfolding zv y by (simp add: algebra_simps)
  have st: "\<bar>of_int st - rho\<bar> \<le> 1"
    using rho rho0 by (auto simp add: st_def abs_if)
  have sg1: "\<bar>of_int sg :: rat\<bar> \<le> 1"
    by (simp add: sg_def sgn_if)
  have close: "\<bar>of_int z * c - y\<bar> \<le> \<bar>y\<bar> / 2 ^ 27"
  proof (cases "m1 = 0")
    case True
    then have "sg = 0" by (simp add: sg_def)
    with diff have "of_int z * c - y = 0" by simp
    then show ?thesis by simp
  next
    case False
    then have "0 < A" by (simp add: A_def)
    from quotient_bits [OF this B k_def] have "2 ^ 26 * B \<le> n" by (simp add: n_def)
    then have "2 ^ 26 * B \<le> q * B + rr" by (simp only: dec)
    moreover have "(q + 1) * B = q * B + B" by (simp add: distrib_right)
    ultimately have "2 ^ 26 * B < (q + 1) * B" using rr(2) by linarith
    then have "2 ^ 26 < q + 1" using B by (simp only: mult_less_cancel_right)
    then have "2 ^ 26 \<le> q" by simp
    then have "(of_int (2 ^ 26) :: rat) \<le> of_int q" by (simp only: of_int_le_iff)
    then have q27: "(2 ^ 27 :: rat) \<le> of_int (2 * q)" by simp
    from False assms(1) have "\<bar>of_int sg :: rat\<bar> = 1" by (simp add: sg_def sgn_if)
    then have ay: "\<bar>y\<bar> = (of_int (2 * q) + rho) * c"
      unfolding y using c rho q0 by (simp add: abs_mult)
    have "\<bar>of_int z * c - y\<bar> = \<bar>of_int sg :: rat\<bar> * c * \<bar>of_int st - rho\<bar>"
      unfolding diff using c by (simp add: abs_mult)
    also have "\<dots> \<le> 1 * c * 1"
      using sg1 st c by (intro mult_mono) simp_all
    finally have d: "\<bar>of_int z * c - y\<bar> \<le> c" by simp
    have "2 ^ 27 * c \<le> (of_int (2 * q) + rho) * c"
      using q27 rho(1) c by (intro mult_right_mono) simp_all
    with d ay show ?thesis by simp
  qed
  have tri: "\<bar>of_int z * c\<bar> \<le> \<bar>of_int z * c - y\<bar> + \<bar>y\<bar>"
    by (rule abs_triangle_ineq4 [of "of_int z * c - y" "- y", simplified])
  have ylt: "\<bar>y\<bar> < 3 * 2 ^ 125" using assms(2) by (simp add: y_def)
  from tri close ylt have "\<bar>of_int z * c\<bar> < 2 ^ 127" by simp
  from round_f32_finite [OF this [unfolded c_def]] obtain md ed mr er
    where r: "round_f32 z E0 = Finite md ed"
      and ne: "nearest_even (of_int z * c) mr er"
      and v: "valof (Finite md ed) = of_int mr * 2 powi er"
    unfolding c_def by blast
  have e1: "\<bar>valof (Finite md ed) - of_int z * c\<bar> \<le> \<bar>of_int z * c\<bar> / 2 ^ 24 + 1 / 2 ^ 150"
    unfolding v by (rule nearest_even_error [OF ne])
  have tri2: "\<bar>valof (Finite md ed) - y\<bar>
      \<le> \<bar>valof (Finite md ed) - of_int z * c\<bar> + \<bar>of_int z * c - y\<bar>"
    by (rule abs_triangle_ineq4 [of "valof (Finite md ed) - of_int z * c" "y - of_int z * c",
          simplified, unfolded abs_minus_commute [of y "of_int z * c"]])
  have ay0: "0 \<le> \<bar>y\<bar>" by simp
  have "\<bar>valof (Finite md ed) - y\<bar> \<le> \<bar>y\<bar> / 2 ^ 23 + 1 / 2 ^ 150"
    by (rule quotient_error_sum [OF tri2 e1 tri close ay0])
  moreover from r fd have "fdiv (Finite m1 e1) (Finite m2 e2) = Finite md ed" by simp
  ultimately show ?thesis unfolding y_def by (intro exI conjI)
qed

section \<open>The scaled reading in the standard's words\<close>

text \<open>
  The conversion \<open>to_float\<close> and the product \<open>fmul\<close> return the standard's roundings:
  whenever the reading converts to \<open>mx * 2 ^ ex\<close> and the exact product of that number and
  the scale factor rounds to \<open>mp * 2 ^ ep\<close>, the model's product has the value
  \<open>mp * 2 ^ ep\<close>.
\<close>

lemma to_float_converts:
  assumes "converts_to v mx ex"
  shows "\<exists>m' e'. to_float v = Finite m' e' \<and> valof (Finite m' e') = valof (Finite mx ex)"
proof (cases v)
  case (U8 w)
  with assms have "binary32_rounding (of_int (uint w) * 2 powi 0) mx ex"
    by (simp add: converts_to_def exact_value_def)
  from round_f32_complete [OF this] U8 show ?thesis by simp
next
  case (U16 w)
  with assms have "binary32_rounding (of_int (uint w) * 2 powi 0) mx ex"
    by (simp add: converts_to_def exact_value_def)
  from round_f32_complete [OF this] U16 show ?thesis by simp
next
  case (U32 w)
  with assms have "binary32_rounding (of_int (uint w) * 2 powi 0) mx ex"
    by (simp add: converts_to_def exact_value_def)
  from round_f32_complete [OF this] U32 show ?thesis by simp
next
  case (I32 w)
  with assms have "binary32_rounding (of_int (sint w) * 2 powi 0) mx ex"
    by (simp add: converts_to_def exact_value_def)
  from round_f32_complete [OF this] I32 show ?thesis by simp
next
  case (F32 f)
  with assms show ?thesis by (simp add: converts_to_def)
qed

lemma fmul_complete:
  assumes "binary32_rounding (valof (Finite m1 e1) * valof (Finite m2 e2)) mp ep"
  shows "\<exists>m' e'. fmul (Finite m1 e1) (Finite m2 e2) = Finite m' e'
           \<and> valof (Finite m' e') = valof (Finite mp ep)"
proof -
  have "valof (Finite m1 e1) * valof (Finite m2 e2) = of_int (m1 * m2) * 2 powi (e1 + e2)"
    by (simp add: valof_powi powi_add)
  with assms have "binary32_rounding (of_int (m1 * m2) * 2 powi (e1 + e2)) mp ep" by simp
  from round_f32_complete [OF this] show ?thesis by simp
qed

lemma scaled_reading:
  assumes "scale_factor s = Finite ms es"
    and "converts_to v mx ex"
    and "binary32_rounding (valof (Finite mx ex) * valof (scale_factor s)) mp ep"
  shows "\<exists>m e. fmul (to_float v) (scale_factor s) = Finite m e
           \<and> valof (Finite m e) = valof (Finite mp ep)"
proof -
  from to_float_converts [OF assms(2)] obtain m' e'
    where t: "to_float v = Finite m' e'" and v: "valof (Finite m' e') = valof (Finite mx ex)"
    by blast
  from assms(3) have "binary32_rounding (valof (Finite m' e') * valof (Finite ms es)) mp ep"
    by (simp only: v assms(1))
  from fmul_complete [OF this] show ?thesis by (simp only: t assms(1))
qed

lemma converts_error:
  assumes "converts_to v mx ex"
  shows "\<bar>valof (Finite mx ex) - exact_value v\<bar> \<le> \<bar>exact_value v\<bar> / 2 ^ 24 + 1 / 2 ^ 150"
proof (cases "\<exists>f. v = F32 f")
  case True
  with assms show ?thesis by (auto simp add: converts_to_def exact_value_def)
next
  case False
  with assms have "binary32_rounding (exact_value v) mx ex"
    by (cases v) (simp_all add: converts_to_def)
  then have "nearest_even (exact_value v) mx ex" by (simp add: binary32_rounding_def)
  from nearest_even_error [OF this] show ?thesis by (simp only: valof_powi)
qed

text \<open>
  The roundings exist: every finite reading converts, and every product below \<open>2 ^ 127\<close>
  in magnitude has its rounding.
\<close>

lemma binary32_rounding_exists:
  assumes "\<bar>of_int m * 2 powi e :: rat\<bar> < 2 ^ 127"
  shows "\<exists>mr er. binary32_rounding (of_int m * 2 powi e) mr er"
proof -
  from round_f32_finite [OF assms] obtain m' e' where "round_f32 m e = Finite m' e'" by blast
  from round_f32_sound [OF this] show ?thesis by blast
qed

lemma product_rounding_exists:
  assumes "\<bar>valof (Finite mx ex) * valof (Finite ms es)\<bar> < 2 ^ 127"
  shows "\<exists>mp ep. binary32_rounding (valof (Finite mx ex) * valof (Finite ms es)) mp ep"
proof -
  have "valof (Finite mx ex) * valof (Finite ms es) = of_int (mx * ms) * 2 powi (ex + es)"
    by (simp add: valof_powi powi_add)
  with assms binary32_rounding_exists [of "mx * ms" "ex + es"] show ?thesis by simp
qed

lemma integer_rounding_exists:
  assumes "\<bar>n\<bar> \<le> 2 ^ 32"
  shows "\<exists>m e. binary32_rounding (of_int n) m e"
proof -
  from assms have "(of_int \<bar>n\<bar> :: rat) \<le> of_int (2 ^ 32)" by (simp only: of_int_le_iff)
  then have "\<bar>of_int n * 2 powi 0 :: rat\<bar> < 2 ^ 127" by simp
  from binary32_rounding_exists [OF this] show ?thesis by simp
qed

lemma converts_to_exists:
  assumes "v \<noteq> F32 NonFinite"
  shows "\<exists>m e. converts_to v m e"
proof (cases v)
  case (U8 w)
  have "\<bar>uint w\<bar> \<le> 2 ^ 32" using uint_bounded [of w] by simp
  from integer_rounding_exists [OF this] U8 show ?thesis
    by (simp add: converts_to_def exact_value_def)
next
  case (U16 w)
  have "\<bar>uint w\<bar> \<le> 2 ^ 32" using uint_bounded [of w] by simp
  from integer_rounding_exists [OF this] U16 show ?thesis
    by (simp add: converts_to_def exact_value_def)
next
  case (U32 w)
  have "\<bar>uint w\<bar> \<le> 2 ^ 32" using uint_bounded [of w] by simp
  from integer_rounding_exists [OF this] U32 show ?thesis
    by (simp add: converts_to_def exact_value_def)
next
  case (I32 w)
  have "\<bar>sint w\<bar> \<le> 2 ^ 32" using sint_ge [of w] sint_lt [of w] by simp
  from integer_rounding_exists [OF this] I32 show ?thesis
    by (simp add: converts_to_def exact_value_def)
next
  case (F32 f)
  with assms obtain m e where "f = Finite m e" by (cases f) auto
  with F32 show ?thesis by (simp add: converts_to_def)
qed

section \<open>The cast to \<open>int\<close> truncates toward zero\<close>

lemma trunc_f32_valof:
  "trunc_f32 (Finite m e) = Some (round_toward_zero (valof (Finite m e)))"
proof (cases "0 \<le> e")
  case True
  have "valof (Finite m e) = of_int (m * 2 ^ nat e)"
    using True by (simp add: valof_def)
  then have "round_toward_zero (valof (Finite m e)) = m * 2 ^ nat e"
    unfolding round_toward_zero_def by (simp del: of_int_mult of_int_power)
  with True show ?thesis by simp
next
  case False
  let ?n = "nat (- e)"
  have v: "valof (Finite m e) = of_int m / of_int (2 ^ ?n)"
    using False by (simp add: valof_def)
  have mv: "- valof (Finite m e) = of_int (- m) / of_int (2 ^ ?n)"
    unfolding v by simp
  have p: "(0::int) < 2 ^ ?n" by simp
  show ?thesis
  proof (cases "0 \<le> m")
    case True
    then have "0 \<le> valof (Finite m e)" unfolding v by simp
    then have "round_toward_zero (valof (Finite m e)) = m div 2 ^ ?n"
      unfolding round_toward_zero_def v by (simp only: if_True floor_divide_of_int_eq)
    moreover have "sgn m * (\<bar>m\<bar> div 2 ^ ?n) = m div 2 ^ ?n"
      using True by (cases "m = 0") simp_all
    ultimately show ?thesis using False by simp
  next
    case mneg: False
    then have "valof (Finite m e) < 0" unfolding v using p by (simp add: divide_neg_pos)
    then have "round_toward_zero (valof (Finite m e)) = - \<lfloor>- valof (Finite m e)\<rfloor>"
      unfolding round_toward_zero_def by simp
    also have "\<dots> = - ((- m) div 2 ^ ?n)"
      unfolding mv by (simp only: floor_divide_of_int_eq)
    finally have "round_toward_zero (valof (Finite m e)) = - ((- m) div 2 ^ ?n)" .
    moreover have "sgn m * (\<bar>m\<bar> div 2 ^ ?n) = - ((- m) div 2 ^ ?n)"
      using mneg by simp
    ultimately show ?thesis using False by simp
  qed
qed

section \<open>The packing loop\<close>

lemma small_cases: "k \<le> 3 \<Longrightarrow> k = 0 \<or> k = 1 \<or> k = 2 \<or> k = (3::nat)"
  by arith

lemma shift_in_range:
  assumes "k \<le> 3"
  shows "\<not> (0 < (of_nat k :: uint8_t) \<and> 32 \<le> unat ((of_nat k :: uint8_t) * 8))"
  using small_cases [OF assms] by auto

lemma bit_255_word: "bit (0xFF :: 'a::len word) n \<longleftrightarrow> n < 8 \<and> n < LENGTH('a)"
proof -
  have m: "(0xFF :: 'a word) = mask 8" by (simp add: mask_eq_exp_minus_1)
  show ?thesis unfolding m by (auto simp add: bit_simps)
qed

lemma bit_255_int: "bit (255 :: int) n \<longleftrightarrow> n < 8"
proof -
  have m: "(255 :: int) = mask 8" by (simp add: mask_eq_exp_minus_1)
  show ?thesis unfolding m by (simp add: bit_simps)
qed

lemma encode_byte_div:
  assumes "k \<le> 3"
  shows "encode_byte d (of_nat k) = word_of_int (sint d div 256 ^ k)"
proof -
  have d: "sint d div 256 ^ k = drop_bit (8 * k) (sint d)"
    by (simp add: drop_bit_eq_div power_mult)
  have u: "unat ((of_nat k :: uint8_t) * 8) = 8 * k" "0 < (of_nat k :: uint8_t) \<longleftrightarrow> 0 < k"
    using small_cases [OF assms] by auto
  have a: "\<not> 32 - 8 * k \<le> n" "8 * k + n < 32" "min 31 (8 * k + n) = 8 * k + n" if "n < 8" for n
    using assms that by auto
  show ?thesis
  proof (rule bit_word_eqI)
    fix n
    assume "n < LENGTH(8)"
    then have n: "n < 8" by simp
    show "bit (encode_byte d (of_nat k)) n \<longleftrightarrow> bit (word_of_int (sint d div 256 ^ k) :: uint8_t) n"
      unfolding d encode_byte_def u using n a [OF n]
      by (simp add: bit_simps bit_255_word bit_255_int)
  qed
qed


lemma encode_loop_step:
  assumes "k \<le> 3" "unat i < ds" "unat bp + unat i < length buf"
  shows "encode_loop d ds bp i (of_nat k) buf =
         encode_loop d ds bp (i + 1) (of_nat k - 1)
           (buf[unat bp + unat i := word_of_int (sint d div 256 ^ k)])"
proof -
  have "\<not> length buf \<le> unat bp + unat i" using assms(3) by simp
  with shift_in_range [OF assms(1)] assms(2) show ?thesis
    by (subst encode_loop.simps) (simp only: if_True if_False encode_byte_div [OF assms(1)])
qed

lemma encode_loop_exit: "\<not> unat i < ds \<Longrightarrow> encode_loop d ds bp i j buf = Inr (buf, i)"
  by (subst encode_loop.simps) simp

lemma encode_loop_run:
  assumes "ds \<le> 4" "unat bp + ds \<le> length buf" "i \<le> ds"
    and "i < ds \<Longrightarrow> j = of_nat (ds - 1 - i)"
  shows "encode_loop d ds bp (of_nat i) j buf =
         Inr (take (unat bp + i) buf
                @ map (\<lambda>k. word_of_int (sint d div 256 ^ (ds - 1 - k))) [i..<ds]
                @ drop (unat bp + ds) buf, of_nat ds)"
  using assms
proof (induction "ds - i" arbitrary: i j buf)
  case 0
  then have "i = ds" by simp
  moreover have "unat (of_nat ds :: uint8_t) = ds"
    using \<open>ds \<le> 4\<close> by (simp add: unat_of_nat)
  ultimately show ?case
    by (simp add: encode_loop_exit)
next
  case (Suc n)
  then have lt: "i < ds" by simp
  define k where "k = ds - 1 - i"
  have j: "j = of_nat k" unfolding k_def using lt by (rule Suc.prems(4))
  have k3: "k \<le> 3" using Suc.prems(1) by (simp add: k_def)
  have ui: "unat (of_nat i :: uint8_t) = i"
    using lt Suc.prems(1) by (simp add: unat_of_nat)
  have cap: "unat bp + i < length buf" using lt Suc.prems(2) by simp
  let ?b = "word_of_int (sint d div 256 ^ k) :: uint8_t"
  let ?buf = "buf[unat bp + i := ?b]"
  have nextj: "j - 1 = of_nat (ds - 1 - Suc i)" if "Suc i < ds"
  proof -
    from that have "k = Suc (ds - 1 - Suc i)" by (simp add: k_def)
    then show ?thesis unfolding j by simp
  qed
  have s1: "(of_nat (Suc i) :: uint8_t) = of_nat i + 1" by simp
  have step: "encode_loop d ds bp (of_nat i) j buf = encode_loop d ds bp (of_nat (Suc i)) (j - 1) ?buf"
    unfolding j s1 using encode_loop_step [OF k3, of "of_nat i" ds bp buf d] lt cap
    by (simp only: ui)
  have ih: "encode_loop d ds bp (of_nat (Suc i)) (j - 1) ?buf =
         Inr (take (unat bp + Suc i) ?buf
                @ map (\<lambda>k. word_of_int (sint d div 256 ^ (ds - 1 - k))) [Suc i..<ds]
                @ drop (unat bp + ds) ?buf, of_nat ds)"
  proof (rule Suc.hyps(1))
    show "n = ds - Suc i" using Suc.hyps(2) by simp
    show "ds \<le> 4" by (rule Suc.prems(1))
    show "unat bp + ds \<le> length ?buf" using Suc.prems(2) by simp
    show "Suc i \<le> ds" using lt by simp
    show "j - 1 = of_nat (ds - 1 - Suc i)" if "Suc i < ds" using that by (rule nextj)
  qed
  have t: "take (unat bp + Suc i) ?buf = take (unat bp + i) buf @ [?b]"
    using cap by (simp add: take_Suc_conv_app_nth)
  have dr: "drop (unat bp + ds) ?buf = drop (unat bp + ds) buf"
    using lt by simp
  have m: "[i..<ds] = i # [Suc i..<ds]" using lt by (simp add: upt_conv_Cons)
  show ?case unfolding step ih t dr m by (simp add: k_def)
qed


lemma encodeDataWithSchema_ok:
  assumes d: "data_to_encode v valid s = Inr d"
    and nv: "n_values s \<noteq> 0"
    and w: "value_width s \<le> 4"
    and cap: "unat (buffsize p) + value_width s \<le> length (buffer p)"
  shows "encodeDataWithSchema v valid p s =
         Inr (p\<lparr>buffer := take (unat (buffsize p)) (buffer p)
                          @ be_bytes (value_width s) (sint d)
                          @ drop (unat (buffsize p) + value_width s) (buffer p),
                buffsize := buffsize p + of_nat (value_width s)\<rparr>,
              sign_warning s d)"
proof -
  let ?w = "value_width s"
  have j: "(of_nat ?w :: uint8_t) - 1 = of_nat (?w - 1 - 0)" if "0 < ?w"
  proof -
    from that have "?w = Suc (?w - 1)" by simp
    then have "(of_nat ?w :: uint8_t) = of_nat (?w - 1) + 1"
      by (metis of_nat_Suc add.commute)
    then show ?thesis by simp
  qed
  have "encode_loop d ?w (buffsize p) (of_nat 0) (of_nat ?w - 1) (buffer p) =
        Inr (take (unat (buffsize p) + 0) (buffer p)
               @ map (\<lambda>k. word_of_int (sint d div 256 ^ (?w - 1 - k))) [0..<?w]
               @ drop (unat (buffsize p) + ?w) (buffer p), of_nat ?w)"
    using w cap j by (intro encode_loop_run) simp_all
  then have "encode_loop d ?w (buffsize p) 0 (of_nat ?w - 1) (buffer p) =
        Inr (take (unat (buffsize p)) (buffer p) @ be_bytes ?w (sint d)
               @ drop (unat (buffsize p) + ?w) (buffer p), of_nat ?w)"
    by (simp add: be_bytes_def)
  then show ?thesis
    using d nv by (simp add: encodeDataWithSchema_def Let_def value_width_def)
qed

lemma length_be_bytes: "length (be_bytes k x) = k"
  by (simp add: be_bytes_def)

lemma appended_ok:
  assumes "unat (buffsize p) + value_width s \<le> length (buffer p)"
    and "length bs = value_width s"
  shows "appended p (p\<lparr>buffer := take (unat (buffsize p)) (buffer p) @ bs
                          @ drop (unat (buffsize p) + value_width s) (buffer p),
                        buffsize := b\<rparr>) s = bs"
  using assms by (simp add: appended_def)

lemma width_cases: "w \<le> 4 \<Longrightarrow> w = 0 \<or> w = 1 \<or> w = 2 \<or> w = 3 \<or> w = (4::nat)"
  by arith

lemma be_bytes_sentinel_signed:
  assumes "w \<le> 4"
  shows "be_bytes w (sint (0x7F7F7F7F :: int_t)) = replicate w 0x7F"
proof (rule nth_equalityI)
  show "length (be_bytes w (sint (0x7F7F7F7F :: int_t))) = length (replicate w (0x7F :: uint8_t))"
    by (simp add: length_be_bytes)
next
  fix i
  assume "i < length (be_bytes w (sint (0x7F7F7F7F :: int_t)))"
  then have i: "i < w" by (simp add: length_be_bytes)
  then have "w - 1 - i \<le> 3" using assms by simp
  then have "(word_of_int (0x7F7F7F7F div 256 ^ (w - 1 - i)) :: uint8_t) = 0x7F"
    using small_cases [of "w - 1 - i"] by auto
  then show "be_bytes w (sint (0x7F7F7F7F :: int_t)) ! i = replicate w 0x7F ! i"
    using i by (simp add: be_bytes_def)
qed

lemma be_bytes_sentinel_unsigned:
  "be_bytes w (sint (0xFFFFFFFF :: int_t)) = replicate w 0xFF"
proof (rule nth_equalityI)
  show "length (be_bytes w (sint (0xFFFFFFFF :: int_t))) = length (replicate w (0xFF :: uint8_t))"
    by (simp add: length_be_bytes)
next
  fix i
  assume "i < length (be_bytes w (sint (0xFFFFFFFF :: int_t)))"
  then have i: "i < w" by (simp add: length_be_bytes)
  have "(- 1 :: int) div 256 ^ (w - 1 - i) = - 1"
    by (simp add: div_eq_minus1)
  then have "(word_of_int ((- 1) div 256 ^ (w - 1 - i)) :: uint8_t) = 0xFF"
    by simp
  then show "be_bytes w (sint (0xFFFFFFFF :: int_t)) ! i = replicate w 0xFF ! i"
    using i by (simp add: be_bytes_def)
qed

lemma sint_word_of_int_32:
  "- (2 ^ 31) \<le> t \<Longrightarrow> t < 2 ^ 31 \<Longrightarrow> sint (word_of_int t :: int_t) = t"
  by (simp add: sint_sbintrunc' signed_take_bit_int_eq_self)

lemma data_to_encode_valid:
  assumes "fmul (to_float v) (scale_factor s) = Finite m e"
    and "- (2 ^ 31) \<le> round_toward_zero (valof (Finite m e))"
    and "round_toward_zero (valof (Finite m e)) < 2 ^ 31"
  shows "data_to_encode v True s = Inr (word_of_int (round_toward_zero (valof (Finite m e))))"
  using assms by (simp add: data_to_encode_def float_to_int_def trunc_f32_valof del: trunc_f32.simps)

lemma product_3_85: "fmul (Finite 16148070 (- 22)) (Finite 100 0) = Finite 12615680 (- 15)"
  by code_simp

lemma truncated_3_85: "round_toward_zero (valof (Finite 12615680 (- 15))) = 385"
  by (simp add: round_toward_zero_def valof_def)

lemma be_bytes_385: "be_bytes 2 385 = [0x01, 0x81]"
  by (simp add: be_bytes_def upt_rec)

lemma product_neg_3_85: "fmul (Finite (- 16148070) (- 22)) (Finite 100 0) = Finite (- 12615680) (- 15)"
  by code_simp

lemma truncated_neg_3_85: "round_toward_zero (valof (Finite (- 12615680) (- 15))) = - 385"
  by (simp add: round_toward_zero_def valof_def)

lemma be_bytes_neg_385: "be_bytes 2 (- 385) = [0xFE, 0x7F]"
  by (simp add: be_bytes_def upt_rec)

lemma sign_warning_negative:
  assumes "\<not> is_signed s" "- (2 ^ 31) \<le> t" "t < 0"
  shows "sign_warning s (word_of_int t) =
         [(WARN, ''A signed value is being sent for a sensor port schema that is unsigned.'')]"
proof -
  have "sint (word_of_int t :: int_t) = t"
    using assms(2,3) by (intro sint_word_of_int_32) simp_all
  then have "(word_of_int t :: int_t) <s 0" using assms(3) by (simp add: word_sless_alt)
  with assms(1) show ?thesis by (simp add: sign_warning_def)
qed

section \<open>When a call is defined\<close>

text \<open>
  A call returns exactly when the scaled value converts to \<open>int\<close>, the value count is
  not zero, a value has at most four bytes and, unless it has none, the buffer has room
  for it. A wider value runs into a shift by 32 or more within the first five rounds
  of the loop: of five consecutive values of \<open>j\<close>, one has \<open>j * 8\<close> (as a \<open>uint8_t\<close>) at
  32 or above.
\<close>

lemma five_consecutive:
  fixes n :: nat
  assumes "4 \<le> n" "n mod 32 < 4" "(n - 1) mod 32 < 4" "(n - 2) mod 32 < 4"
    "(n - 3) mod 32 < 4" "(n - 4) mod 32 < 4"
  shows False
proof -
  define q r where "q = n div 32" and "r = n mod 32"
  have n: "n = 32 * q + r" by (simp add: q_def r_def)
  have r: "r < 4" using assms(2) by (simp add: r_def)
  have q: "1 \<le> q" using n r assms(1) by (cases q) simp_all
  have m: "(n - k) mod 32 = 31" if "k = r + 1" for k
  proof -
    have "n - k = 32 * (q - 1) + 31" using n q that by simp
    then show ?thesis by simp
  qed
  from r consider "r = 0" | "r = 1" | "r = 2" | "r = 3" by arith
  then show False
  proof cases
    case 1
    then have "(n - 1) mod 32 = 31" by (intro m) simp
    with assms(3) show False by simp
  next
    case 2
    then have "(n - 2) mod 32 = 31" by (intro m) simp
    with assms(4) show False by simp
  next
    case 3
    then have "(n - 3) mod 32 = 31" by (intro m) simp
    with assms(5) show False by simp
  next
    case 4
    then have "(n - 4) mod 32 = 31" by (intro m) simp
    with assms(6) show False by simp
  qed
qed

lemma good_shift_iff:
  fixes j :: uint8_t
  shows "\<not> (0 < j \<and> 32 \<le> unat (j * 8)) \<longleftrightarrow> unat j mod 32 < 4"
proof -
  have "unat (j * 8) = (unat j * 8) mod 256" by (simp add: unat_word_ariths)
  also have "\<dots> = 8 * (unat j mod 32)"
    using mult_mod_right [of 8 "unat j" 32] by (simp add: mult.commute)
  finally have u: "unat (j * 8) = 8 * (unat j mod 32)" .
  show ?thesis
  proof (cases "j = 0")
    case True
    then show ?thesis by simp
  next
    case False
    then have "0 < j" by (simp add: word_gt_0)
    with u show ?thesis by auto
  qed
qed


lemma encode_loop_first:
  assumes "encode_loop d ds bp i j buf = Inr r" and "unat i < ds"
  shows "unat j mod 32 < 4"
    and "unat bp + unat i < length buf"
    and "encode_loop d ds bp (i + 1) (j - 1) (buf[unat bp + unat i := encode_byte d j]) = Inr r"
proof -
  have g: "\<not> (0 < j \<and> 32 \<le> unat (j * 8))"
    using assms by (subst (asm) encode_loop.simps) (auto split: if_splits)
  then show "unat j mod 32 < 4" by (simp only: good_shift_iff)
  show c: "unat bp + unat i < length buf"
    using assms g by (subst (asm) encode_loop.simps) (auto split: if_splits)
  show "encode_loop d ds bp (i + 1) (j - 1) (buf[unat bp + unat i := encode_byte d j]) = Inr r"
    using assms g c by (subst (asm) encode_loop.simps) (auto split: if_splits)
qed

lemma unat_sub_small:
  fixes j :: uint8_t
  assumes "k \<le> unat j"
  shows "unat (j - of_nat k) = unat j - k"
proof -
  have "unat j < 2 ^ LENGTH(8)" by (rule unsigned_less)
  then have "k < 256" using assms by simp
  then have k: "unat (of_nat k :: uint8_t) = k" by (simp add: unat_of_nat)
  then have "(of_nat k :: uint8_t) \<le> j" using assms by (simp add: word_le_nat_alt)
  then show ?thesis by (simp add: unat_sub k)
qed

lemma encode_loop_too_wide:
  assumes "5 \<le> ds"
  shows "encode_loop d ds bp 0 j buf \<noteq> Inr r"
proof
  assume a0: "encode_loop d ds bp 0 j buf = Inr r"
  have u: "unat (0 :: uint8_t) < ds" "unat (1 :: uint8_t) < ds" "unat (2 :: uint8_t) < ds"
    "unat (3 :: uint8_t) < ds" "unat (4 :: uint8_t) < ds"
    using assms by simp_all
  note s0 = encode_loop_first [OF a0 u(1)]
  from s0(3) have a1: "encode_loop d ds bp 1 (j - 1) (buf[unat bp + unat (0 :: uint8_t) := encode_byte d j]) = Inr r"
    by simp
  note s1 = encode_loop_first [OF a1 u(2)]
  from s1(3) have a2: "encode_loop d ds bp 2 (j - 2)
      (buf[unat bp + unat (0 :: uint8_t) := encode_byte d j,
           unat bp + unat (1 :: uint8_t) := encode_byte d (j - 1)]) = Inr r"
    by simp
  note s2 = encode_loop_first [OF a2 u(3)]
  from s2(3) have a3: "encode_loop d ds bp 3 (j - 3)
      (buf[unat bp + unat (0 :: uint8_t) := encode_byte d j,
           unat bp + unat (1 :: uint8_t) := encode_byte d (j - 1),
           unat bp + unat (2 :: uint8_t) := encode_byte d (j - 2)]) = Inr r"
    by simp
  note s3 = encode_loop_first [OF a3 u(4)]
  from s3(3) have a4: "encode_loop d ds bp 4 (j - 4)
      (buf[unat bp + unat (0 :: uint8_t) := encode_byte d j,
           unat bp + unat (1 :: uint8_t) := encode_byte d (j - 1),
           unat bp + unat (2 :: uint8_t) := encode_byte d (j - 2),
           unat bp + unat (3 :: uint8_t) := encode_byte d (j - 3)]) = Inr r"
    by simp
  note s4 = encode_loop_first [OF a4 u(5)]
  have good: "unat j mod 32 < 4" "unat (j - 1) mod 32 < 4" "unat (j - 2) mod 32 < 4"
    "unat (j - 3) mod 32 < 4" "unat (j - 4) mod 32 < 4"
    using s0(1) s1(1) s2(1) s3(1) s4(1) .
  show False
  proof (cases "4 \<le> unat j")
    case True
    have "unat (j - 1) = unat j - 1" "unat (j - 2) = unat j - 2"
      "unat (j - 3) = unat j - 3" "unat (j - 4) = unat j - 4"
      using True unat_sub_small [of 1 j] unat_sub_small [of 2 j]
        unat_sub_small [of 3 j] unat_sub_small [of 4 j]
      by simp_all
    with good five_consecutive [OF True] show False by simp
  next
    case False
    then have "unat j = 0 \<or> unat j = 1 \<or> unat j = 2 \<or> unat j = 3" by arith
    then have "j = 0 \<or> j = 1 \<or> j = 2 \<or> j = 3"
      by (auto simp add: word_unat_eq_iff)
    moreover have "unat (- 1 :: uint8_t) = 255"
      by (simp add: unsigned_minus_1_eq_mask mask_eq_exp_minus_1)
    ultimately show False using good by auto
  qed
qed


lemma encode_loop_needs_room:
  assumes "encode_loop d ds bp (of_nat i) j buf = Inr r" and "i < ds" and "ds \<le> 4"
  shows "unat bp + ds \<le> length buf"
  using assms
proof (induction "ds - i" arbitrary: i j buf)
  case 0
  then show ?case by simp
next
  case (Suc n)
  have ui: "unat (of_nat i :: uint8_t) = i"
    using Suc.prems(2,3) by (simp add: unat_of_nat)
  then have lt: "unat (of_nat i :: uint8_t) < ds" using Suc.prems(2) by simp
  note s = encode_loop_first [OF Suc.prems(1) lt]
  show ?case
  proof (cases "Suc i < ds")
    case True
    have "encode_loop d ds bp (of_nat (Suc i)) (j - 1)
            (buf[unat bp + unat (of_nat i :: uint8_t) := encode_byte d j]) = Inr r"
      using s(3) by (simp add: add.commute)
    from Suc.hyps(1) [OF _ this True Suc.prems(3)] Suc.hyps(2)
    show ?thesis by simp
  next
    case False
    with Suc.prems(2) have "ds = Suc i" by simp
    with s(2) ui show ?thesis by simp
  qed
qed

lemma encodeDataWithSchema_returns_iff:
  "(\<exists>r. encodeDataWithSchema v valid p s = Inr r) \<longleftrightarrow>
     (\<exists>d. data_to_encode v valid s = Inr d) \<and> n_values s \<noteq> 0 \<and> value_width s \<le> 4
     \<and> (value_width s = 0 \<or> unat (buffsize p) + value_width s \<le> length (buffer p))"
proof
  assume "\<exists>r. encodeDataWithSchema v valid p s = Inr r"
  then obtain r where r: "encodeDataWithSchema v valid p s = Inr r" ..
  then obtain d where d: "data_to_encode v valid s = Inr d"
    by (cases "data_to_encode v valid s") (simp_all add: encodeDataWithSchema_def)
  from r d have nv: "n_values s \<noteq> 0"
    by (auto simp add: encodeDataWithSchema_def Let_def split: if_splits)
  let ?w = "value_width s"
  from r d nv obtain q where
    q: "encode_loop d ?w (buffsize p) 0 (of_nat ?w - 1) (buffer p) = Inr q"
    by (cases "encode_loop d ?w (buffsize p) 0 (of_nat ?w - 1) (buffer p)")
       (simp_all add: encodeDataWithSchema_def Let_def value_width_def)
  have w: "?w \<le> 4"
  proof (rule ccontr)
    assume "\<not> ?w \<le> 4"
    then have "5 \<le> ?w" by simp
    from encode_loop_too_wide [OF this] q show False by blast
  qed
  have "unat (buffsize p) + ?w \<le> length (buffer p)" if "?w \<noteq> 0"
  proof -
    from q have "encode_loop d ?w (buffsize p) (of_nat 0) (of_nat ?w - 1) (buffer p) = Inr q"
      by simp
    from encode_loop_needs_room [OF this _ w] that show ?thesis by simp
  qed
  with d nv w show "(\<exists>d. data_to_encode v valid s = Inr d) \<and> n_values s \<noteq> 0 \<and> ?w \<le> 4
     \<and> (?w = 0 \<or> unat (buffsize p) + ?w \<le> length (buffer p))"
    by blast
next
  assume a: "(\<exists>d. data_to_encode v valid s = Inr d) \<and> n_values s \<noteq> 0 \<and> value_width s \<le> 4
     \<and> (value_width s = 0 \<or> unat (buffsize p) + value_width s \<le> length (buffer p))"
  then obtain d where d: "data_to_encode v valid s = Inr d" by blast
  show "\<exists>r. encodeDataWithSchema v valid p s = Inr r"
  proof (cases "unat (buffsize p) + value_width s \<le> length (buffer p)")
    case True
    from encodeDataWithSchema_ok [OF d _ _ True] a show ?thesis by blast
  next
    case False
    with a have "value_width s = 0" by blast
    then have "n_bytes s div n_values s = 0" by (simp add: value_width_def)
    with d a show ?thesis
      by (simp add: encodeDataWithSchema_def Let_def encode_loop_exit)
  qed
qed

section \<open>The reading 3.85\<close>

text \<open>
  The decimal 3.85 is not a binary32 number; the \<open>float\<close> nearest to it, the correctly
  rounded quotient of 385 and 100, is \<open>16148070 * 2 ^ -22\<close>. The modelled decoder maps
  the bytes \<open>0x01 0x81\<close> back to this number.
\<close>

lemma literal_3_85: "fdiv (Finite 385 0) (Finite 100 0) = Finite 16148070 (- 22)"
  by code_simp

lemma decode_3_85:
  "decodeData \<lparr>n_bytes = 2, n_values = 1, scale_factor = Finite 100 0, is_signed = False\<rparr>
     [0x01, 0x81] = (Finite 16148070 (- 22), True)"
proof -
  let ?s = "\<lparr>n_bytes = 2, n_values = 1, scale_factor = Finite 100 0, is_signed = False\<rparr>"
  have r: "reassemble ?s [0x01, 0x81] = 385"
    by (simp add: reassemble_def be_int_def)
  have q: "fdiv (round_f32 385 0) (Finite 100 0) = Finite 16148070 (- 22)"
    by code_simp
  have "sentinel_bytes ?s = [0xFF, 0xFF]"
    by (simp add: sentinel_bytes_def value_width_def numeral_eq_Suc)
  then have v: "sentinel_value ?s = 65535"
    by (simp add: sentinel_value_def be_int_def)
  show ?thesis
    by (simp only: decodeData_def r v sensorPortSchema.simps q) simp
qed

text \<open>The standard's rounding of the product \<open>3.85f * 100\<close> is 385.\<close>

lemma rounded_3_85:
  "binary32_rounding (valof (Finite 16148070 (- 22)) * valof (Finite 100 0)) 12615680 (- 15)"
  by (simp add: binary32_rounding_def nearest_even_def valof_def)

section \<open>The reading 16777217\<close>

text \<open>
  \<open>2 ^ 24 + 1\<close> is not a binary32 number: the cast to \<open>float\<close> gives \<open>2 ^ 24\<close>, and a
  4-byte unsigned codec of scale 100 encodes 1677721600, the bytes \<open>0x64 0x00 0x00 0x00\<close>.
  The standard's roundings give the same integer.
\<close>

lemma appended_16777217:
  "encodeDataWithSchema (U32 16777217) True
     \<lparr>buffer = [0, 0, 0, 0], buffsize = 0, port = 1, rssi = 0, snr = 0\<rparr>
     \<lparr>n_bytes = 4, n_values = 1, scale_factor = Finite 100 0, is_signed = False\<rparr>
   = Inr (\<lparr>buffer = [0x64, 0, 0, 0], buffsize = 4, port = 1, rssi = 0, snr = 0\<rparr>, [])"
proof -
  let ?s = "\<lparr>n_bytes = 4, n_values = 1, scale_factor = Finite 100 0, is_signed = False\<rparr>"
  have c: "to_float (U32 16777217) = Finite 8388608 1"
    by code_simp
  have m: "float_to_int (fmul (Finite 8388608 1) (Finite 100 0)) = Inr 1677721600"
    by code_simp
  have d: "data_to_encode (U32 16777217) True ?s = Inr 1677721600"
    by (simp only: data_to_encode_def c m if_True sensorPortSchema.simps)
  show ?thesis
    by (simp only: encodeDataWithSchema_def d)
       (simp add: sign_warning_def word_sless_alt encode_loop.simps encode_byte_def)
qed

lemma rounded_16777217:
  "converts_to (U32 16777217) 8388608 1"
  "binary32_rounding (valof (Finite 8388608 1) * valof (Finite 100 0)) 13107200 7"
  "round_toward_zero (valof (Finite 13107200 7)) = 1677721600"
  "be_bytes 4 1677721600 = [0x64, 0, 0, 0]"
  by (simp_all add: converts_to_def exact_value_def binary32_rounding_def nearest_even_def
      valof_def round_toward_zero_def be_bytes_def upt_rec)

section \<open>The port catalog\<close>

lemmas port_defs =
  PORT1_def PORT2_def PORT3_def PORT4_def PORT5_def PORT6_def PORT7_def PORT8_def
  PORT9_def PORT10_def PORT11_def PORT50_def PORT51_def PORT52_def PORT53_def
  PORT54_def PORT55_def PORT56_def PORT57_def PORT58_def PORT59_def

lemma PORTERROR_excludes: "\<not> port_includes PORTERROR k"
  by (cases k) (simp_all add: PORTERROR_def)

lemma encoded_length_PORTERROR: "encoded_length codec PORTERROR = 0"
  by (simp add: encoded_length_def PORTERROR_excludes)

lemma getPort_unregistered:
  assumes "n \<notin> port_number ` set registered_ports"
  shows "getPort n = PORTERROR"
proof -
  have "find (\<lambda>ps. port_number ps = n) registered_ports = None"
    using assms by (auto simp add: find_None_iff)
  then show ?thesis by (simp add: getPort_def)
qed

lemma not_registered_255: "255 \<notin> port_number ` set registered_ports"
  by (simp add: registered_ports_def port_defs)

section \<open>Encoding a whole port\<close>










section \<open>Reassembling the encoded bytes\<close>

lemma be_int_snoc: "be_int (bs @ [b]) = be_int bs * 256 + uint b"
  by (simp add: be_int_def)

lemma be_int_sentinel_signed: "2 * be_int (replicate w 0x7F) < 256 ^ w"
proof (induction w)
  case 0
  show ?case by (simp add: be_int_def)
next
  case (Suc w)
  have "replicate (Suc w) (0x7F :: uint8_t) = replicate w 0x7F @ [0x7F]"
    by (simp add: replicate_append_same)
  then have "be_int (replicate (Suc w) 0x7F) = be_int (replicate w 0x7F) * 256 + 127"
    by (simp only: be_int_snoc) simp
  with Suc show ?case by simp
qed

lemma reassemble_sentinel: "reassemble s (sentinel_bytes s) = sentinel_value s"
proof (cases "is_signed s")
  case True
  then have "sentinel_bytes s = replicate (value_width s) 0x7F"
    by (simp add: sentinel_bytes_def)
  with be_int_sentinel_signed [of "value_width s"] show ?thesis
    by (simp add: reassemble_def sentinel_value_def)
next
  case False
  then show ?thesis by (simp add: reassemble_def sentinel_value_def)
qed

lemma data_to_encode_invalid:
  "data_to_encode v False s = Inr (if is_signed s then 0x7F7F7F7F else 0xFFFFFFFF)"
  by (simp add: data_to_encode_def)

lemma be_bytes_sentinel:
  assumes "value_width s \<le> 4"
  shows "be_bytes (value_width s) (sint (if is_signed s then 0x7F7F7F7F else 0xFFFFFFFF :: int_t))
         = sentinel_bytes s"
  using be_bytes_sentinel_signed [OF assms] be_bytes_sentinel_unsigned [of "value_width s"]
  by (simp add: sentinel_bytes_def)

lemma be_bytes_Suc: "be_bytes (Suc w) t = be_bytes w (t div 256) @ [word_of_int t]"
proof -
  have "t div 256 ^ (w - i) = t div 256 div 256 ^ (w - 1 - i)" if "i < w" for i
  proof -
    from that have "w - i = Suc (w - 1 - i)" by simp
    then have "(256 :: int) ^ (w - i) = 256 * 256 ^ (w - 1 - i)" by simp
    then show ?thesis by (simp add: zdiv_zmult2_eq)
  qed
  then have "map (\<lambda>i. word_of_int (t div 256 ^ (w - i)) :: uint8_t) [0..<w]
           = map (\<lambda>i. word_of_int (t div 256 div 256 ^ (w - 1 - i))) [0..<w]"
    by simp
  then show ?thesis by (simp add: be_bytes_def)
qed

lemma be_int_be_bytes: "be_int (be_bytes w t) = t mod 256 ^ w"
proof (induction w arbitrary: t)
  case 0
  show ?case by (simp add: be_bytes_def be_int_def)
next
  case (Suc w)
  have "be_int (be_bytes (Suc w) t) = (t div 256 mod 256 ^ w) * 256 + t mod 256"
    unfolding be_bytes_Suc be_int_snoc Suc.IH by (simp add: uint_word_of_int take_bit_eq_mod)
  also have "\<dots> = t mod (256 * 256 ^ w)"
    by (simp add: zmod_zmult2_eq mult.commute)
  finally show ?case by simp
qed

lemma reassemble_be_bytes:
  assumes "fits_field s t"
  shows "reassemble s (be_bytes (value_width s) t) = t"
proof -
  let ?M = "(256 :: int) ^ value_width s"
  have M: "0 < ?M" by simp
  show ?thesis
  proof (cases "is_signed s \<and> t < 0")
    case True
    with assms have r: "- ?M \<le> 2 * t" "t < 0" by (simp_all add: fits_field_def)
    then have "- ?M \<le> t" by simp
    with r(2) have "(t + ?M) mod ?M = t + ?M"
      by (intro mod_pos_pos_trivial) simp_all
    then have "t mod ?M = t + ?M" by simp
    with r True show ?thesis
      by (simp add: reassemble_def be_int_be_bytes length_be_bytes)
  next
    case False
    with assms have r: "0 \<le> t" "t < ?M" "is_signed s \<longrightarrow> 2 * t < ?M"
      by (auto simp add: fits_field_def split: if_splits)
    then have "t mod ?M = t" by simp
    with r show ?thesis
      by (auto simp add: reassemble_def be_int_be_bytes length_be_bytes)
  qed
qed

lemma round_toward_zero_close: "\<bar>of_int (round_toward_zero x) - x\<bar> < 1"
  unfolding round_toward_zero_def by (auto simp add: abs_if) linarith+

lemma round_toward_zero_abs: "\<bar>of_int (round_toward_zero x) :: rat\<bar> \<le> \<bar>x\<bar>"
proof (cases "0 \<le> x")
  case True
  then have "0 \<le> \<lfloor>x\<rfloor>" by simp
  then have "\<bar>of_int \<lfloor>x\<rfloor> :: rat\<bar> = of_int \<lfloor>x\<rfloor>" by simp
  also have "\<dots> \<le> x" by (rule of_int_floor_le)
  finally show ?thesis using True by (simp add: round_toward_zero_def)
next
  case False
  then have n: "0 \<le> - x" by simp
  then have "0 \<le> \<lfloor>- x\<rfloor>" by simp
  then have "\<bar>of_int (- \<lfloor>- x\<rfloor>) :: rat\<bar> = of_int \<lfloor>- x\<rfloor>" by simp
  also have "\<dots> \<le> - x" by (rule of_int_floor_le)
  finally show ?thesis using False by (simp add: round_toward_zero_def)
qed


lemma sentinel_value_2_unsigned:
  "sentinel_value \<lparr>n_bytes = 2, n_values = 1, scale_factor = Finite 100 0, is_signed = False\<rparr>
   = 65535"
proof -
  have "sentinel_bytes
      \<lparr>n_bytes = 2, n_values = 1, scale_factor = Finite 100 0, is_signed = False\<rparr>
    = [0xFF, 0xFF]"
    by (simp add: sentinel_bytes_def value_width_def numeral_eq_Suc)
  then show ?thesis by (simp add: sentinel_value_def be_int_def)
qed

text \<open>
  A valid reading whose scaled integer is the sentinel pattern cannot be told from a
  reading that is not valid: the \<open>int\<close> 32639 through a signed 2-byte codec of scale 1 is
  encoded as \<open>0x7F 0x7F\<close> and decoded as not valid.
\<close>

lemma sentinel_collision:
  "encodeDataWithSchema (I32 32639) True
     \<lparr>buffer = [0, 0], buffsize = 0, port = 1, rssi = 0, snr = 0\<rparr>
     \<lparr>n_bytes = 2, n_values = 1, scale_factor = Finite 1 0, is_signed = True\<rparr>
   = Inr (\<lparr>buffer = [0x7F, 0x7F], buffsize = 2, port = 1, rssi = 0, snr = 0\<rparr>, [])"
  "snd (decodeData \<lparr>n_bytes = 2, n_values = 1, scale_factor = Finite 1 0, is_signed = True\<rparr>
          [0x7F, 0x7F]) = False"
proof -
  let ?s = "\<lparr>n_bytes = 2, n_values = 1, scale_factor = Finite 1 0, is_signed = True\<rparr>"
  have c: "to_float (I32 32639) = Finite 32639 0"
    by code_simp
  have m: "float_to_int (fmul (Finite 32639 0) (Finite 1 0)) = Inr 32639"
    by code_simp
  have d: "data_to_encode (I32 32639) True ?s = Inr 32639"
    by (simp only: data_to_encode_def c m if_True sensorPortSchema.simps)
  show "encodeDataWithSchema (I32 32639) True
     \<lparr>buffer = [0, 0], buffsize = 0, port = 1, rssi = 0, snr = 0\<rparr> ?s
   = Inr (\<lparr>buffer = [0x7F, 0x7F], buffsize = 2, port = 1, rssi = 0, snr = 0\<rparr>, [])"
    by (simp only: encodeDataWithSchema_def d)
       (simp add: sign_warning_def encode_loop.simps encode_byte_def)
  have "sentinel_bytes ?s = [0x7F, 0x7F]"
    by (simp add: sentinel_bytes_def value_width_def numeral_eq_Suc)
  then have "sentinel_value ?s = 32639"
    by (simp add: sentinel_value_def be_int_def)
  moreover have "reassemble ?s [0x7F, 0x7F] = 32639"
    by (simp add: reassemble_def be_int_def)
  ultimately show "snd (decodeData ?s [0x7F, 0x7F]) = False"
    by (simp add: decodeData_def)
qed

section \<open>The error of a round trip\<close>

text \<open>
  The decoded reading differs from the original by the truncation, less than one unit of
  the scaled integer, and by four roundings: the cast to \<open>float\<close>, the product, the
  decoder's conversion of the integer and its division (bounded by \<open>2 ^ -23\<close> of the
  quotient). The lemmas here add up the bounds.
\<close>

lemma error_sum:
  fixes dv d1 d2 d3 d4 d5 aV aX aP aT aF R :: rat
  assumes "dv \<le> d5 + d4 + d3 + d2 + d1"
    and "d1 \<le> aV / 2 ^ 24 + 1 / 2 ^ 150"
    and "d2 \<le> aX / 2 ^ 24 + R / 2 ^ 150"
    and "d3 \<le> R"
    and "d4 \<le> aT / 2 ^ 24"
    and "d5 \<le> aF / 2 ^ 23 + 1 / 2 ^ 150"
    and "aX \<le> d1 + aV"
    and "aP \<le> d2 + aX"
    and "aT \<le> aP"
    and "aF \<le> d4 + aT"
    and "0 \<le> aV"
    and "0 \<le> R"
    and "0 \<le> aX"
    and "0 \<le> aT"
  shows "dv \<le> R + (aV + R) / 2 ^ 21 + 1 / 2 ^ 148"
proof -
  have pw: "(2::rat) ^ 21 = 2097152" "(2::rat) ^ 23 = 8388608" "(2::rat) ^ 24 = 16777216"
    "(2::rat) ^ 148 = 356811923176489970264571492362373784095686656"
    "(2::rat) ^ 150 = 1427247692705959881058285969449495136382746624"
    by simp_all
  note a = assms [unfolded pw]
  have x: "aX \<le> 17 / 16 * aV + 1 / 1427247692705959881058285969449495136382746624"
    using a(2,7,11) by linarith
  have "aP \<le> 17 / 16 * aX + R / 1427247692705959881058285969449495136382746624"
    using a(3,8,13) by linarith
  then have t: "aT \<le> 5 / 4 * aV + 2 / 1427247692705959881058285969449495136382746624
                  + R / 1427247692705959881058285969449495136382746624"
    using x a(9,11) by linarith
  have f: "aF \<le> 17 / 16 * aT"
    using a(5,10,14) by linarith
  have s45: "d5 + d4 \<le> 4 * aT / 16777216 + 1 / 1427247692705959881058285969449495136382746624"
    using a(5,6,14) f by linarith
  have s12: "d2 + d1 \<le> 3 * aV / 16777216 + 2 / 1427247692705959881058285969449495136382746624
                + R / 1427247692705959881058285969449495136382746624"
    using a(2,3,11) x by linarith
  have "dv \<le> 4 * aT / 16777216 + R + 3 * aV / 16777216
            + 3 / 1427247692705959881058285969449495136382746624
            + R / 1427247692705959881058285969449495136382746624"
    using a(1,4) s45 s12 by linarith
  then have "dv \<le> R + aV / 2097152 + R / 2097152
                 + 1 / 356811923176489970264571492362373784095686656"
    using t a(11,12) by linarith
  then show ?thesis unfolding pw by (simp add: add_divide_distrib)
qed

lemma abs_diff_chain:
  fixes a b c d e f :: rat
  shows "\<bar>a - f\<bar> \<le> \<bar>a - b\<bar> + \<bar>b - c\<bar> + \<bar>c - d\<bar> + \<bar>d - e\<bar> + \<bar>e - f\<bar>"
  by linarith

lemma abs_le_diff:
  fixes a b :: rat
  shows "\<bar>a\<bar> \<le> \<bar>a - b\<bar> + \<bar>b\<bar>"
  by linarith

lemma abs_div_scale:
  fixes a b S :: rat
  assumes "0 < S"
  shows "\<bar>a / S - b / S\<bar> = \<bar>a - b\<bar> / S" and "\<bar>a / S\<bar> = \<bar>a\<bar> / S"
  using assms by (simp_all add: diff_divide_distrib [symmetric])

lemma scaled_error:
  fixes P X S :: rat
  assumes "0 < S" and "\<bar>P - X * S\<bar> \<le> \<bar>X * S\<bar> / 2 ^ 24 + 1 / 2 ^ 150"
  shows "\<bar>P / S - X\<bar> \<le> \<bar>X\<bar> / 2 ^ 24 + (1 / S) / 2 ^ 150"
proof -
  have "X = X * S / S" using assms(1) by simp
  then have "\<bar>P / S - X\<bar> = \<bar>P / S - X * S / S\<bar>" by simp
  also have "\<dots> = \<bar>P - X * S\<bar> / S" by (rule abs_div_scale(1) [OF assms(1)])
  also have "\<dots> \<le> (\<bar>X * S\<bar> / 2 ^ 24 + 1 / 2 ^ 150) / S"
    using assms by (intro divide_right_mono) simp_all
  also have "\<dots> = \<bar>X\<bar> / 2 ^ 24 + (1 / S) / 2 ^ 150"
    using assms(1) by (simp add: abs_mult add_divide_distrib)
  finally show ?thesis .
qed

lemma scaled_relative:
  fixes a b S :: rat
  assumes "0 < S" and "\<bar>a - b\<bar> \<le> \<bar>b\<bar> / 2 ^ 24"
  shows "\<bar>a / S - b / S\<bar> \<le> \<bar>b / S\<bar> / 2 ^ 24"
proof -
  have "\<bar>a / S - b / S\<bar> = \<bar>a - b\<bar> / S" by (rule abs_div_scale(1) [OF assms(1)])
  also have "\<dots> \<le> \<bar>b\<bar> / 2 ^ 24 / S" using assms by (intro divide_right_mono) simp_all
  also have "\<dots> = \<bar>b\<bar> / S / 2 ^ 24" by simp
  also have "\<dots> = \<bar>b / S\<bar> / 2 ^ 24" by (simp only: abs_div_scale(2) [OF assms(1)])
  finally show ?thesis .
qed

lemma quotient_below_overflow:
  fixes aF d aT S :: rat
  assumes "aF \<le> d + aT" and "d \<le> aT / 2 ^ 24" and "aT < 2 ^ 126 * S" and "0 < S"
  shows "aF < 3 * 2 ^ 125 * S"
proof -
  have pw: "(2::rat) ^ 24 = 16777216" "(2::rat) ^ 125 = 42535295865117307932921825928971026432" "(2::rat) ^ 126 = 85070591730234615865843651857942052864"
    by simp_all
  show ?thesis using assms unfolding pw by linarith
qed


section \<open>Claims about one call of the field encoder\<close>

text \<open>
  C1 (as amended). One call of \<open>encodeDataWithSchema\<close> appends the bytes of one value:
  for a codec with a non-zero value count and at most four bytes per value, a reading
  whose scaled value converts to \<open>int\<close>, and a buffer of at most 255 bytes with room
  for the value, the call returns, overwrites exactly \<open>n_bytes div n_values\<close> bytes
  starting at the old \<open>buffsize\<close>, and increases \<open>buffsize\<close> by exactly
  \<open>n_bytes div n_values\<close>, for either validity flag.
\<close>

theorem encode_appends_value_width:
  assumes "data_to_encode v valid s = Inr d"
    and "n_values s \<noteq> 0"
    and "value_width s \<le> 4"
    and "unat (buffsize p) + value_width s \<le> length (buffer p)"
    and "length (buffer p) \<le> 255"
  shows "\<exists>p' lg bs. encodeDataWithSchema v valid p s = Inr (p', lg)
           \<and> length bs = value_width s
           \<and> buffer p' = take (unat (buffsize p)) (buffer p) @ bs
                            @ drop (unat (buffsize p) + value_width s) (buffer p)
           \<and> unat (buffsize p') = unat (buffsize p) + value_width s"
proof -
  let ?bs = "be_bytes (value_width s) (sint d)"
  let ?p' = "p\<lparr>buffer := take (unat (buffsize p)) (buffer p) @ ?bs
                          @ drop (unat (buffsize p) + value_width s) (buffer p),
                buffsize := buffsize p + of_nat (value_width s)\<rparr>"
  have u: "unat (buffsize p + of_nat (value_width s)) = unat (buffsize p) + value_width s"
    using assms(4,5) by (simp add: unat_word_ariths unat_of_nat)
  have "encodeDataWithSchema v valid p s = Inr (?p', sign_warning s d)"
    by (rule encodeDataWithSchema_ok [OF assms(1-4)])
  moreover have "length ?bs = value_width s" by (rule length_be_bytes)
  moreover have "buffer ?p' = take (unat (buffsize p)) (buffer p) @ ?bs
                            @ drop (unat (buffsize p) + value_width s) (buffer p)"
    by simp
  moreover have "unat (buffsize ?p') = unat (buffsize p) + value_width s"
    using u by simp
  ultimately show ?thesis by blast
qed


text \<open>
  C1 as stated fails when \<open>n_values > 1\<close>: a codec of 8 bytes holding 2 values appends
  4 bytes per call and leaves \<open>buffsize\<close> at 4, not 8.
\<close>

theorem encode_appends_byte_width_counterexample:
  "encodeDataWithSchema (F32 (Finite 0 0)) False
     \<lparr>buffer = [0, 0, 0, 0, 0, 0, 0, 0], buffsize = 0, port = 1, rssi = 0, snr = 0\<rparr>
     \<lparr>n_bytes = 8, n_values = 2, scale_factor = Finite 10000 0, is_signed = True\<rparr>
   = Inr (\<lparr>buffer = [0x7F, 0x7F, 0x7F, 0x7F, 0, 0, 0, 0], buffsize = 4,
            port = 1, rssi = 0, snr = 0\<rparr>, [])
   \<and> unat (buffsize \<lparr>buffer = [0x7F, 0x7F, 0x7F, 0x7F, 0, 0, 0, 0 :: uint8_t], buffsize = 4,
                       port = 1, rssi = 0, snr = 0\<rparr>)
     \<noteq> unat (buffsize \<lparr>buffer = [0, 0, 0, 0, 0, 0, 0, 0 :: uint8_t], buffsize = 0,
                         port = 1, rssi = 0, snr = 0\<rparr>)
       + n_bytes \<lparr>n_bytes = 8, n_values = 2, scale_factor = Finite 10000 0, is_signed = True\<rparr>"
  by (simp add: encodeDataWithSchema_def data_to_encode_def sign_warning_def
      encode_loop.simps encode_byte_def)

theorem encode_appends_value_width_witness:
  "data_to_encode (F32 (Finite 16148070 (- 22))) True
     \<lparr>n_bytes = 2, n_values = 1, scale_factor = Finite 100 0, is_signed = False\<rparr> = Inr 385
   \<and> n_values \<lparr>n_bytes = 2, n_values = 1, scale_factor = Finite 100 0, is_signed = False\<rparr> \<noteq> 0
   \<and> value_width \<lparr>n_bytes = 2, n_values = 1, scale_factor = Finite 100 0, is_signed = False\<rparr> \<le> 4
   \<and> unat (buffsize \<lparr>buffer = [0, 0], buffsize = 0, port = 1, rssi = 0, snr = 0\<rparr>)
       + value_width \<lparr>n_bytes = 2, n_values = 1, scale_factor = Finite 100 0, is_signed = False\<rparr>
       \<le> length (buffer \<lparr>buffer = [0, 0], buffsize = 0, port = 1, rssi = 0, snr = 0\<rparr>)
   \<and> length (buffer \<lparr>buffer = [0, 0], buffsize = 0, port = 1, rssi = 0, snr = 0\<rparr>) \<le> 255
   \<and> (\<exists>p' lg bs.
         encodeDataWithSchema (F32 (Finite 16148070 (- 22))) True
           \<lparr>buffer = [0, 0], buffsize = 0, port = 1, rssi = 0, snr = 0\<rparr>
           \<lparr>n_bytes = 2, n_values = 1, scale_factor = Finite 100 0, is_signed = False\<rparr>
         = Inr (p', lg)
         \<and> length bs = 2
         \<and> buffer p' = bs
         \<and> unat (buffsize p') = 2)"
proof -
  let ?s = "\<lparr>n_bytes = 2, n_values = 1, scale_factor = Finite 100 0, is_signed = False\<rparr>"
  let ?p = "\<lparr>buffer = [0, 0], buffsize = 0, port = 1, rssi = 0, snr = 0\<rparr>"
  let ?v = "F32 (Finite 16148070 (- 22))"
  have h1: "data_to_encode ?v True ?s = Inr 385"
    by code_simp
  have h2: "n_values ?s \<noteq> 0" by simp
  have h3: "value_width ?s \<le> 4" by (simp add: value_width_def)
  have h4: "unat (buffsize ?p) + value_width ?s \<le> length (buffer ?p)"
    by (simp add: value_width_def)
  have h5: "length (buffer ?p) \<le> 255" by simp
  from encode_appends_value_width [OF h1 h2 h3 h4 h5]
  obtain p' lg bs where r: "encodeDataWithSchema ?v True ?p ?s = Inr (p', lg)"
    and "length bs = value_width ?s"
    and "buffer p' = take (unat (buffsize ?p)) (buffer ?p) @ bs
                       @ drop (unat (buffsize ?p) + value_width ?s) (buffer ?p)"
    and "unat (buffsize p') = unat (buffsize ?p) + value_width ?s"
    by blast
  then have "length bs = 2" "buffer p' = bs" "unat (buffsize p') = 2"
    by (simp_all add: value_width_def)
  with r have "\<exists>p' lg bs. encodeDataWithSchema ?v True ?p ?s = Inr (p', lg)
      \<and> length bs = 2 \<and> buffer p' = bs \<and> unat (buffsize p') = 2"
    by blast
  with h1 h2 h3 h4 h5 show ?thesis by (intro conjI)
qed


text \<open>
  C2. With \<open>valid = false\<close> the call appends the sentinel, whatever the reading:
  \<open>0x7F\<close> repeated over \<open>n_bytes div n_values\<close> bytes for a signed codec, \<open>0xFF\<close>
  repeated otherwise. The codec has a non-zero value count and at most four bytes per
  value (the spec's invariant on field codecs) and the buffer has room for the value.
  For a 2-byte unsigned codec the bytes are \<open>0xFF 0xFF\<close>.
\<close>

theorem invalid_reading_encodes_sentinel:
  assumes "n_values s \<noteq> 0"
    and "value_width s \<le> 4"
    and "unat (buffsize p) + value_width s \<le> length (buffer p)"
  shows "\<exists>p' lg. encodeDataWithSchema v False p s = Inr (p', lg)
           \<and> appended p p' s = sentinel_bytes s"
proof -
  define d :: int_t where "d = (if is_signed s then 0x7F7F7F7F else 0xFFFFFFFF)"
  have d: "data_to_encode v False s = Inr d"
    by (simp add: data_to_encode_def d_def)
  have b: "be_bytes (value_width s) (sint d) = sentinel_bytes s"
    using be_bytes_sentinel_signed [OF assms(2)] be_bytes_sentinel_unsigned [of "value_width s"]
    by (simp add: d_def sentinel_bytes_def)
  have "appended p (p\<lparr>buffer := take (unat (buffsize p)) (buffer p)
                          @ be_bytes (value_width s) (sint d)
                          @ drop (unat (buffsize p) + value_width s) (buffer p),
                        buffsize := buffsize p + of_nat (value_width s)\<rparr>) s = sentinel_bytes s"
    unfolding b [symmetric] using assms(3) by (intro appended_ok) (simp_all add: length_be_bytes)
  with encodeDataWithSchema_ok [OF d assms] show ?thesis by blast
qed


theorem invalid_reading_encodes_sentinel_witness:
  "n_values \<lparr>n_bytes = 2, n_values = 1, scale_factor = Finite 100 0, is_signed = False\<rparr> \<noteq> 0
   \<and> value_width \<lparr>n_bytes = 2, n_values = 1, scale_factor = Finite 100 0, is_signed = False\<rparr> \<le> 4
   \<and> unat (buffsize \<lparr>buffer = [0, 0], buffsize = 0, port = 1, rssi = 0, snr = 0\<rparr>)
       + value_width \<lparr>n_bytes = 2, n_values = 1, scale_factor = Finite 100 0, is_signed = False\<rparr>
       \<le> length (buffer \<lparr>buffer = [0, 0], buffsize = 0, port = 1, rssi = 0, snr = 0\<rparr>)
   \<and> (\<exists>p' lg.
         encodeDataWithSchema (F32 (Finite 16148070 (- 22))) False
           \<lparr>buffer = [0, 0], buffsize = 0, port = 1, rssi = 0, snr = 0\<rparr>
           \<lparr>n_bytes = 2, n_values = 1, scale_factor = Finite 100 0, is_signed = False\<rparr>
         = Inr (p', lg)
         \<and> appended \<lparr>buffer = [0, 0], buffsize = 0, port = 1, rssi = 0, snr = 0\<rparr> p'
               \<lparr>n_bytes = 2, n_values = 1, scale_factor = Finite 100 0, is_signed = False\<rparr>
             = [0xFF, 0xFF])"
proof -
  let ?s = "\<lparr>n_bytes = 2, n_values = 1, scale_factor = Finite 100 0, is_signed = False\<rparr>"
  let ?p = "\<lparr>buffer = [0, 0], buffsize = 0, port = 1, rssi = 0, snr = 0\<rparr>"
  let ?v = "F32 (Finite 16148070 (- 22))"
  have h1: "n_values ?s \<noteq> 0" by simp
  have h2: "value_width ?s \<le> 4" by (simp add: value_width_def)
  have h3: "unat (buffsize ?p) + value_width ?s \<le> length (buffer ?p)"
    by (simp add: value_width_def)
  have b: "sentinel_bytes ?s = [0xFF, 0xFF]"
    by (simp add: sentinel_bytes_def value_width_def numeral_2_eq_2)
  from invalid_reading_encodes_sentinel [OF h1 h2 h3, of ?v]
  have "\<exists>p' lg. encodeDataWithSchema ?v False ?p ?s = Inr (p', lg)
      \<and> appended ?p p' ?s = [0xFF, 0xFF]"
    unfolding b .
  with h1 h2 h3 show ?thesis by (intro conjI)
qed

text \<open>
  C3 (as amended). With \<open>valid = true\<close> the appended bytes are the big-endian
  two's-complement representation, over \<open>n_bytes div n_values\<close> bytes, of the binary32
  product \<open>(float)sensor_data * scale_factor\<close> rounded toward zero: the reading converted
  to \<open>float\<close> (an integer reading is rounded to nearest, ties to even), times the scale
  factor, the exact product rounded to nearest, ties to even, and the result truncated.
  The codec has a non-zero value count, at most four bytes per value and a finite scale
  factor, the buffer has room, and the truncated integer fits \<open>int\<close>. The reading 3.85
  (the binary32 number \<open>16148070 * 2 ^ -22\<close>) through a 2-byte unsigned codec of scale
  100 gives \<open>0x01 0x81\<close>: the exact product 384.99999046 rounds to 385.
\<close>

theorem valid_reading_encodes_rounded_product:
  assumes "n_values s \<noteq> 0"
    and "value_width s \<le> 4"
    and "unat (buffsize p) + value_width s \<le> length (buffer p)"
    and "scale_factor s = Finite ms es"
    and "converts_to v mx ex"
    and "binary32_rounding (valof (Finite mx ex) * valof (scale_factor s)) mp ep"
    and "- (2 ^ 31) \<le> round_toward_zero (valof (Finite mp ep))"
    and "round_toward_zero (valof (Finite mp ep)) < 2 ^ 31"
  shows "\<exists>p' lg. encodeDataWithSchema v True p s = Inr (p', lg)
           \<and> appended p p' s
               = be_bytes (value_width s) (round_toward_zero (valof (Finite mp ep)))"
proof -
  let ?t = "round_toward_zero (valof (Finite mp ep))"
  from scaled_reading [OF assms(4-6)] obtain m e
    where f: "fmul (to_float v) (scale_factor s) = Finite m e"
      and v: "valof (Finite m e) = valof (Finite mp ep)"
    by blast
  have d: "data_to_encode v True s = Inr (word_of_int ?t)"
    using data_to_encode_valid [OF f] assms(7,8) unfolding v by simp
  have "appended p (p\<lparr>buffer := take (unat (buffsize p)) (buffer p)
                          @ be_bytes (value_width s) ?t
                          @ drop (unat (buffsize p) + value_width s) (buffer p),
                        buffsize := buffsize p + of_nat (value_width s)\<rparr>) s
        = be_bytes (value_width s) ?t"
    using assms(3) by (intro appended_ok) (simp_all add: length_be_bytes)
  with encodeDataWithSchema_ok [OF d assms(1-3)] show ?thesis
    unfolding sint_word_of_int_32 [OF assms(7,8)] by blast
qed


text \<open>
  C3 as stated fails where binary32 rounds: for the \<open>uint32_t\<close> reading 16777217 and a
  4-byte unsigned codec of scale 100 the product truncated toward zero is 1677721700,
  the bytes \<open>0x64 0x00 0x00 0x64\<close>, but the call appends \<open>0x64 0x00 0x00 0x00\<close>.
\<close>

theorem exact_product_truncation_counterexample:
  "encodeDataWithSchema (U32 16777217) True
     \<lparr>buffer = [0, 0, 0, 0], buffsize = 0, port = 1, rssi = 0, snr = 0\<rparr>
     \<lparr>n_bytes = 4, n_values = 1, scale_factor = Finite 100 0, is_signed = False\<rparr>
   = Inr (\<lparr>buffer = [0x64, 0, 0, 0], buffsize = 4, port = 1, rssi = 0, snr = 0\<rparr>, [])
   \<and> appended \<lparr>buffer = [0, 0, 0, 0], buffsize = 0, port = 1, rssi = 0, snr = 0\<rparr>
        \<lparr>buffer = [0x64, 0, 0, 0], buffsize = 4, port = 1, rssi = 0, snr = 0\<rparr>
        \<lparr>n_bytes = 4, n_values = 1, scale_factor = Finite 100 0, is_signed = False\<rparr>
     = [0x64, 0, 0, 0]
   \<and> be_bytes 4 (round_toward_zero (exact_value (U32 16777217) * valof (Finite 100 0)))
     = [0x64, 0, 0, 0x64]
   \<and> [0x64, 0, 0, 0] \<noteq> [0x64, 0, 0, 0x64 :: uint8_t]"
proof -
  have a: "appended \<lparr>buffer = [0, 0, 0, 0], buffsize = 0, port = 1, rssi = 0, snr = 0\<rparr>
        \<lparr>buffer = [0x64, 0, 0, 0], buffsize = 4, port = 1, rssi = 0, snr = 0\<rparr>
        \<lparr>n_bytes = 4, n_values = 1, scale_factor = Finite 100 0, is_signed = False\<rparr>
     = [0x64, 0, 0, 0]"
    by (simp add: appended_def value_width_def)
  have "exact_value (U32 16777217) * valof (Finite 100 0) = of_int 1677721700"
    by (simp add: exact_value_def valof_def)
  then have "round_toward_zero (exact_value (U32 16777217) * valof (Finite 100 0)) = 1677721700"
    by (simp only: round_toward_zero_def) simp
  then have b: "be_bytes 4 (round_toward_zero (exact_value (U32 16777217) * valof (Finite 100 0)))
     = [0x64, 0, 0, 0x64]"
    by (simp add: be_bytes_def upt_rec)
  have c: "[0x64, 0, 0, 0] \<noteq> [0x64, 0, 0, 0x64 :: uint8_t]" by simp
  from appended_16777217 a b c show ?thesis by (intro conjI)
qed

theorem valid_reading_encodes_rounded_product_witness:
  "n_values \<lparr>n_bytes = 2, n_values = 1, scale_factor = Finite 100 0, is_signed = False\<rparr> \<noteq> 0
   \<and> value_width \<lparr>n_bytes = 2, n_values = 1, scale_factor = Finite 100 0, is_signed = False\<rparr> \<le> 4
   \<and> unat (buffsize \<lparr>buffer = [0, 0], buffsize = 0, port = 1, rssi = 0, snr = 0\<rparr>)
       + value_width \<lparr>n_bytes = 2, n_values = 1, scale_factor = Finite 100 0, is_signed = False\<rparr>
       \<le> length (buffer \<lparr>buffer = [0, 0], buffsize = 0, port = 1, rssi = 0, snr = 0\<rparr>)
   \<and> scale_factor \<lparr>n_bytes = 2, n_values = 1, scale_factor = Finite 100 0, is_signed = False\<rparr>
       = Finite 100 0
   \<and> converts_to (F32 (Finite 16148070 (- 22))) 16148070 (- 22)
   \<and> binary32_rounding
        (valof (Finite 16148070 (- 22))
          * valof (scale_factor
              \<lparr>n_bytes = 2, n_values = 1, scale_factor = Finite 100 0, is_signed = False\<rparr>))
        12615680 (- 15)
   \<and> - (2 ^ 31) \<le> round_toward_zero (valof (Finite 12615680 (- 15)))
   \<and> round_toward_zero (valof (Finite 12615680 (- 15))) < 2 ^ 31
   \<and> (\<exists>p' lg.
         encodeDataWithSchema (F32 (Finite 16148070 (- 22))) True
           \<lparr>buffer = [0, 0], buffsize = 0, port = 1, rssi = 0, snr = 0\<rparr>
           \<lparr>n_bytes = 2, n_values = 1, scale_factor = Finite 100 0, is_signed = False\<rparr>
         = Inr (p', lg)
         \<and> appended \<lparr>buffer = [0, 0], buffsize = 0, port = 1, rssi = 0, snr = 0\<rparr> p'
               \<lparr>n_bytes = 2, n_values = 1, scale_factor = Finite 100 0, is_signed = False\<rparr>
             = [0x01, 0x81])"
proof -
  let ?s = "\<lparr>n_bytes = 2, n_values = 1, scale_factor = Finite 100 0, is_signed = False\<rparr>"
  let ?p = "\<lparr>buffer = [0, 0], buffsize = 0, port = 1, rssi = 0, snr = 0\<rparr>"
  let ?v = "F32 (Finite 16148070 (- 22))"
  have h1: "n_values ?s \<noteq> 0" by simp
  have h2: "value_width ?s \<le> 4" by (simp add: value_width_def)
  have h3: "unat (buffsize ?p) + value_width ?s \<le> length (buffer ?p)"
    by (simp add: value_width_def)
  have h4: "scale_factor ?s = Finite 100 0" by simp
  have h5: "converts_to ?v 16148070 (- 22)" by (simp add: converts_to_def)
  have h6: "binary32_rounding (valof (Finite 16148070 (- 22)) * valof (scale_factor ?s))
              12615680 (- 15)"
    using rounded_3_85 by simp
  have h7: "- (2 ^ 31) \<le> round_toward_zero (valof (Finite 12615680 (- 15)))"
    unfolding truncated_3_85 by simp
  have h8: "round_toward_zero (valof (Finite 12615680 (- 15))) < 2 ^ 31"
    unfolding truncated_3_85 by simp
  have w: "value_width ?s = 2" by (simp add: value_width_def)
  from valid_reading_encodes_rounded_product [OF h1 h2 h3 h4 h5 h6 h7 h8]
  have "\<exists>p' lg. encodeDataWithSchema ?v True ?p ?s = Inr (p', lg)
      \<and> appended ?p p' ?s = [0x01, 0x81]"
    unfolding w truncated_3_85 be_bytes_385 .
  with h1 h2 h3 h4 h5 h6 h7 h8 show ?thesis by (intro conjI)
qed


text \<open>
  C7. When the codec is unsigned and the scaled integer is negative, the call logs the
  warning and still returns; the payload is the one the same codec marked signed
  produces without a warning, and the appended bytes are the big-endian
  two's-complement truncation of the integer: \<open>-385\<close> through a 2-byte unsigned codec
  is \<open>0xFE 0x7F\<close>.
\<close>

theorem negative_value_in_unsigned_field_wraps:
  assumes "n_values s \<noteq> 0"
    and "value_width s \<le> 4"
    and "unat (buffsize p) + value_width s \<le> length (buffer p)"
    and "fmul (to_float v) (scale_factor s) = Finite m e"
    and "- (2 ^ 31) \<le> round_toward_zero (valof (Finite m e))"
    and "round_toward_zero (valof (Finite m e)) < 0"
    and "\<not> is_signed s"
  shows "\<exists>p'. encodeDataWithSchema v True p s
             = Inr (p', [(WARN, ''A signed value is being sent for a sensor port schema that is unsigned.'')])
           \<and> encodeDataWithSchema v True p (s\<lparr>is_signed := True\<rparr>) = Inr (p', [])
           \<and> appended p p' s
               = be_bytes (value_width s) (round_toward_zero (valof (Finite m e)))"
proof -
  let ?t = "round_toward_zero (valof (Finite m e))"
  let ?s' = "s\<lparr>is_signed := True\<rparr>"
  let ?p' = "p\<lparr>buffer := take (unat (buffsize p)) (buffer p)
                          @ be_bytes (value_width s) ?t
                          @ drop (unat (buffsize p) + value_width s) (buffer p),
                buffsize := buffsize p + of_nat (value_width s)\<rparr>"
  have hi: "?t < 2 ^ 31" using assms(6) by simp
  have st: "sint (word_of_int ?t :: int_t) = ?t"
    by (rule sint_word_of_int_32 [OF assms(5) hi])
  have d: "data_to_encode v True s = Inr (word_of_int ?t)"
    by (rule data_to_encode_valid [OF assms(4,5) hi])
  have d': "data_to_encode v True ?s' = Inr (word_of_int ?t)"
    using d by (simp add: data_to_encode_def)
  have w': "value_width ?s' = value_width s" by (simp add: value_width_def)
  have a: "encodeDataWithSchema v True p s = Inr (?p', sign_warning s (word_of_int ?t))"
    using encodeDataWithSchema_ok [OF d assms(1-3)] unfolding st .
  have b: "encodeDataWithSchema v True p ?s' = Inr (?p', sign_warning ?s' (word_of_int ?t))"
    using encodeDataWithSchema_ok [OF d', of p] assms(1-3) unfolding st w' by simp
  have c: "appended p ?p' s = be_bytes (value_width s) ?t"
    using assms(3) by (intro appended_ok) (simp_all add: length_be_bytes)
  have "sign_warning ?s' (word_of_int ?t) = []" by (simp add: sign_warning_def)
  with a b c sign_warning_negative [OF assms(7,5,6)] show ?thesis by auto
qed


theorem negative_value_in_unsigned_field_wraps_witness:
  "n_values \<lparr>n_bytes = 2, n_values = 1, scale_factor = Finite 100 0, is_signed = False\<rparr> \<noteq> 0
   \<and> value_width \<lparr>n_bytes = 2, n_values = 1, scale_factor = Finite 100 0, is_signed = False\<rparr> \<le> 4
   \<and> unat (buffsize \<lparr>buffer = [0, 0], buffsize = 0, port = 1, rssi = 0, snr = 0\<rparr>)
       + value_width \<lparr>n_bytes = 2, n_values = 1, scale_factor = Finite 100 0, is_signed = False\<rparr>
       \<le> length (buffer \<lparr>buffer = [0, 0], buffsize = 0, port = 1, rssi = 0, snr = 0\<rparr>)
   \<and> fmul (to_float (F32 (Finite (- 16148070) (- 22))))
        (scale_factor \<lparr>n_bytes = 2, n_values = 1, scale_factor = Finite 100 0, is_signed = False\<rparr>)
       = Finite (- 12615680) (- 15)
   \<and> - (2 ^ 31) \<le> round_toward_zero (valof (Finite (- 12615680) (- 15)))
   \<and> round_toward_zero (valof (Finite (- 12615680) (- 15))) < 0
   \<and> \<not> is_signed \<lparr>n_bytes = 2, n_values = 1, scale_factor = Finite 100 0, is_signed = False\<rparr>
   \<and> (\<exists>p'.
         encodeDataWithSchema (F32 (Finite (- 16148070) (- 22))) True
           \<lparr>buffer = [0, 0], buffsize = 0, port = 1, rssi = 0, snr = 0\<rparr>
           \<lparr>n_bytes = 2, n_values = 1, scale_factor = Finite 100 0, is_signed = False\<rparr>
         = Inr (p', [(WARN, ''A signed value is being sent for a sensor port schema that is unsigned.'')])
         \<and> encodeDataWithSchema (F32 (Finite (- 16148070) (- 22))) True
           \<lparr>buffer = [0, 0], buffsize = 0, port = 1, rssi = 0, snr = 0\<rparr>
           \<lparr>n_bytes = 2, n_values = 1, scale_factor = Finite 100 0, is_signed = True\<rparr>
         = Inr (p', [])
         \<and> appended \<lparr>buffer = [0, 0], buffsize = 0, port = 1, rssi = 0, snr = 0\<rparr> p'
               \<lparr>n_bytes = 2, n_values = 1, scale_factor = Finite 100 0, is_signed = False\<rparr>
             = [0xFE, 0x7F])"
proof -
  let ?s = "\<lparr>n_bytes = 2, n_values = 1, scale_factor = Finite 100 0, is_signed = False\<rparr>"
  let ?p = "\<lparr>buffer = [0, 0], buffsize = 0, port = 1, rssi = 0, snr = 0\<rparr>"
  let ?v = "F32 (Finite (- 16148070) (- 22))"
  have h1: "n_values ?s \<noteq> 0" by simp
  have h2: "value_width ?s \<le> 4" by (simp add: value_width_def)
  have h3: "unat (buffsize ?p) + value_width ?s \<le> length (buffer ?p)"
    by (simp add: value_width_def)
  have h4: "fmul (to_float ?v) (scale_factor ?s) = Finite (- 12615680) (- 15)"
    using product_neg_3_85 by simp
  have h5: "- (2 ^ 31) \<le> round_toward_zero (valof (Finite (- 12615680) (- 15)))"
    unfolding truncated_neg_3_85 by simp
  have h6: "round_toward_zero (valof (Finite (- 12615680) (- 15))) < 0"
    unfolding truncated_neg_3_85 by simp
  have h7: "\<not> is_signed ?s" by simp
  have w: "value_width ?s = 2" by (simp add: value_width_def)
  have u: "?s\<lparr>is_signed := True\<rparr>
         = \<lparr>n_bytes = 2, n_values = 1, scale_factor = Finite 100 0, is_signed = True\<rparr>"
    by simp
  from negative_value_in_unsigned_field_wraps [OF h1 h2 h3 h4 h5 h6 h7]
  have "\<exists>p'. encodeDataWithSchema ?v True ?p ?s
        = Inr (p', [(WARN, ''A signed value is being sent for a sensor port schema that is unsigned.'')])
      \<and> encodeDataWithSchema ?v True ?p
           \<lparr>n_bytes = 2, n_values = 1, scale_factor = Finite 100 0, is_signed = True\<rparr>
        = Inr (p', [])
      \<and> appended ?p p' ?s = [0xFE, 0x7F]"
    unfolding w u truncated_neg_3_85 be_bytes_neg_385 .
  with h1 h2 h3 h4 h5 h6 h7 show ?thesis by (intro conjI)
qed

text \<open>
  C10. A call writes only the buffer positions \<open>buffsize\<close> to
  \<open>buffsize + n_bytes div n_values - 1\<close> and the member \<open>buffsize\<close>: the buffer keeps its
  length, every byte before the old \<open>buffsize\<close> and every byte from
  \<open>buffsize + n_bytes div n_values\<close> on is unchanged, and so is every other member of
  the payload struct.
\<close>

theorem encode_frame:
  assumes "data_to_encode v valid s = Inr d"
    and "n_values s \<noteq> 0"
    and "value_width s \<le> 4"
    and "unat (buffsize p) + value_width s \<le> length (buffer p)"
  shows "\<exists>p' lg. encodeDataWithSchema v valid p s = Inr (p', lg)
           \<and> length (buffer p') = length (buffer p)
           \<and> (\<forall>k < length (buffer p).
                 k < unat (buffsize p) \<or> unat (buffsize p) + value_width s \<le> k
                   \<longrightarrow> buffer p' ! k = buffer p ! k)
           \<and> port p' = port p \<and> rssi p' = rssi p \<and> snr p' = snr p
           \<and> lmh_app_data_t.more p' = lmh_app_data_t.more p"
proof -
  let ?b = "unat (buffsize p)"
  let ?w = "value_width s"
  let ?bs = "be_bytes ?w (sint d)"
  let ?buf = "take ?b (buffer p) @ ?bs @ drop (?b + ?w) (buffer p)"
  let ?p' = "p\<lparr>buffer := ?buf, buffsize := buffsize p + of_nat ?w\<rparr>"
  have len: "length ?buf = length (buffer p)"
    using assms(4) by (simp add: length_be_bytes)
  have same: "?buf ! k = buffer p ! k"
    if "k < length (buffer p)" "k < ?b \<or> ?b + ?w \<le> k" for k
  proof (cases "k < ?b")
    case True
    then show ?thesis using assms(4) by (simp add: nth_append)
  next
    case False
    with that(2) have ge: "?b + ?w \<le> k" by simp
    then have n: "\<not> k < ?b" "\<not> k - ?b < ?w" "?b \<le> length (buffer p)"
      using assms(4) by simp_all
    have "?buf ! k = (?bs @ drop (?b + ?w) (buffer p)) ! (k - ?b)"
      using n(1,3) by (simp add: nth_append)
    also have "\<dots> = drop (?b + ?w) (buffer p) ! (k - ?b - ?w)"
      using n(2) by (simp add: nth_append length_be_bytes)
    also have "\<dots> = buffer p ! k"
      using ge that(1) by simp
    finally show ?thesis .
  qed
  have "encodeDataWithSchema v valid p s = Inr (?p', sign_warning s d)"
    by (rule encodeDataWithSchema_ok [OF assms])
  moreover have "length (buffer ?p') = length (buffer p)" using len by simp
  moreover have "\<forall>k < length (buffer p).
      k < ?b \<or> ?b + ?w \<le> k \<longrightarrow> buffer ?p' ! k = buffer p ! k"
    using same by simp
  moreover have "port ?p' = port p \<and> rssi ?p' = rssi p \<and> snr ?p' = snr p
      \<and> lmh_app_data_t.more ?p' = lmh_app_data_t.more p"
    by simp
  ultimately show ?thesis by blast
qed


theorem encode_frame_witness:
  "data_to_encode (F32 (Finite 16148070 (- 22))) True
     \<lparr>n_bytes = 2, n_values = 1, scale_factor = Finite 100 0, is_signed = False\<rparr> = Inr 385
   \<and> n_values \<lparr>n_bytes = 2, n_values = 1, scale_factor = Finite 100 0, is_signed = False\<rparr> \<noteq> 0
   \<and> value_width \<lparr>n_bytes = 2, n_values = 1, scale_factor = Finite 100 0, is_signed = False\<rparr> \<le> 4
   \<and> unat (buffsize \<lparr>buffer = [0xAA, 0xBB, 0, 0, 0xCC], buffsize = 1, port = 7, rssi = 3, snr = 5\<rparr>)
       + value_width \<lparr>n_bytes = 2, n_values = 1, scale_factor = Finite 100 0, is_signed = False\<rparr>
       \<le> length (buffer \<lparr>buffer = [0xAA, 0xBB, 0, 0, 0xCC], buffsize = 1, port = 7, rssi = 3, snr = 5\<rparr>)
   \<and> (\<exists>p' lg.
         encodeDataWithSchema (F32 (Finite 16148070 (- 22))) True
           \<lparr>buffer = [0xAA, 0xBB, 0, 0, 0xCC], buffsize = 1, port = 7, rssi = 3, snr = 5\<rparr>
           \<lparr>n_bytes = 2, n_values = 1, scale_factor = Finite 100 0, is_signed = False\<rparr>
         = Inr (p', lg)
         \<and> length (buffer p') = 5
         \<and> buffer p' ! 0 = 0xAA \<and> buffer p' ! 3 = 0 \<and> buffer p' ! 4 = 0xCC
         \<and> port p' = 7 \<and> rssi p' = 3 \<and> snr p' = 5)"
proof -
  let ?s = "\<lparr>n_bytes = 2, n_values = 1, scale_factor = Finite 100 0, is_signed = False\<rparr>"
  let ?p = "\<lparr>buffer = [0xAA, 0xBB, 0, 0, 0xCC], buffsize = 1, port = 7, rssi = 3, snr = 5\<rparr>"
  let ?v = "F32 (Finite 16148070 (- 22))"
  have h1: "data_to_encode ?v True ?s = Inr 385"
    by code_simp
  have h2: "n_values ?s \<noteq> 0" by simp
  have h3: "value_width ?s \<le> 4" by (simp add: value_width_def)
  have h4: "unat (buffsize ?p) + value_width ?s \<le> length (buffer ?p)"
    by (simp add: value_width_def)
  from encode_frame [OF h1 h2 h3 h4]
  obtain p' lg where r: "encodeDataWithSchema ?v True ?p ?s = Inr (p', lg)"
    and l: "length (buffer p') = length (buffer ?p)"
    and f: "\<forall>k < length (buffer ?p).
              k < unat (buffsize ?p) \<or> unat (buffsize ?p) + value_width ?s \<le> k
                \<longrightarrow> buffer p' ! k = buffer ?p ! k"
    and o: "port p' = port ?p" "rssi p' = rssi ?p" "snr p' = snr ?p"
    by blast
  from f [rule_format, of 0] f [rule_format, of 3] f [rule_format, of 4]
  have "buffer p' ! 0 = 0xAA" "buffer p' ! 3 = 0" "buffer p' ! 4 = 0xCC"
    by (simp_all add: value_width_def)
  with r l o have "\<exists>p' lg. encodeDataWithSchema ?v True ?p ?s = Inr (p', lg)
         \<and> length (buffer p') = 5
         \<and> buffer p' ! 0 = 0xAA \<and> buffer p' ! 3 = 0 \<and> buffer p' ! 4 = 0xCC
         \<and> port p' = 7 \<and> rssi p' = 3 \<and> snr p' = 5"
    by simp
  with h1 h2 h3 h4 show ?thesis by (intro conjI)
qed


section \<open>Claims about port schemas\<close>

text \<open>
  C4. Looking up port number 255, or any number that no registered schema carries,
  returns the error schema: its port number is 255, it includes no sensor field kind,
  and its encoded length is 0 whatever the field codecs are. \<open>getPort\<close> is a total
  function, so the lookup always returns.
\<close>

theorem unknown_port_gives_error_schema:
  assumes "n = 255 \<or> n \<notin> port_number ` set registered_ports"
  shows "getPort n = PORTERROR
       \<and> port_number (getPort n) = 255
       \<and> (\<forall>k. \<not> port_includes (getPort n) k)
       \<and> encoded_length codec (getPort n) = 0"
proof -
  from assms not_registered_255 have "n \<notin> port_number ` set registered_ports" by auto
  then have "getPort n = PORTERROR" by (rule getPort_unregistered)
  then show ?thesis
    by (simp add: PORTERROR_excludes encoded_length_PORTERROR) (simp add: PORTERROR_def)
qed

theorem unknown_port_gives_error_schema_witness:
  "((12 :: uint8_t) = 255 \<or> 12 \<notin> port_number ` set registered_ports)
   \<and> (getPort 12 = PORTERROR
      \<and> port_number (getPort 12) = 255
      \<and> (\<forall>k. \<not> port_includes (getPort 12) k)
      \<and> encoded_length
           (\<lambda>k. \<lparr>n_bytes = 2, n_values = 1, scale_factor = Finite 100 0, is_signed = False\<rparr>)
           (getPort 12) = 0)"
proof -
  have h: "(12 :: uint8_t) = 255 \<or> 12 \<notin> port_number ` set registered_ports"
    by (simp add: registered_ports_def port_defs)
  from h unknown_port_gives_error_schema [OF h] show ?thesis by (rule conjI)
qed

text \<open>
  C5. For all port schemas \<open>a\<close> and \<open>b\<close> and every sensor field kind, the combined
  schema includes the kind exactly when \<open>a\<close> or \<open>b\<close> does, and its port number is 0.
\<close>

theorem combine_is_flagwise_or:
  "port_includes (combine a b) k = (port_includes a k \<or> port_includes b k) \<and> port_number (combine a b) = 0"
  by (cases k) (simp_all add: combine_def)





section \<open>Claims about the round trip\<close>

text \<open>
  C8. For every codec satisfying the spec's invariant and every reading, decoding the
  bytes that the encoder appends with \<open>valid = false\<close> yields \<open>was_valid = false\<close>: the
  reassembled integer is the sentinel pattern of the codec's width and signedness.
\<close>

theorem sentinel_decodes_as_invalid:
  assumes "n_values s \<noteq> 0"
    and "value_width s \<le> 4"
    and "unat (buffsize p) + value_width s \<le> length (buffer p)"
  shows "\<exists>p' lg. encodeDataWithSchema v False p s = Inr (p', lg)
           \<and> \<not> snd (decodeData s (appended p p' s))"
proof -
  let ?d = "if is_signed s then 0x7F7F7F7F else 0xFFFFFFFF :: int_t"
  let ?p' = "p\<lparr>buffer := take (unat (buffsize p)) (buffer p)
                          @ be_bytes (value_width s) (sint ?d)
                          @ drop (unat (buffsize p) + value_width s) (buffer p),
                buffsize := buffsize p + of_nat (value_width s)\<rparr>"
  have run: "encodeDataWithSchema v False p s = Inr (?p', sign_warning s ?d)"
    by (rule encodeDataWithSchema_ok [OF data_to_encode_invalid assms])
  have "appended p ?p' s = be_bytes (value_width s) (sint ?d)"
    using assms(3) by (intro appended_ok) (simp_all add: length_be_bytes)
  then have "appended p ?p' s = sentinel_bytes s"
    by (simp only: be_bytes_sentinel [OF assms(2)])
  then have "\<not> snd (decodeData s (appended p ?p' s))"
    by (simp add: decodeData_def reassemble_sentinel)
  with run show ?thesis by blast
qed


theorem sentinel_decodes_as_invalid_witness:
  "n_values \<lparr>n_bytes = 8, n_values = 2, scale_factor = Finite 10000 0, is_signed = True\<rparr> \<noteq> 0
   \<and> value_width \<lparr>n_bytes = 8, n_values = 2, scale_factor = Finite 10000 0, is_signed = True\<rparr> \<le> 4
   \<and> unat (buffsize \<lparr>buffer = [0, 0, 0, 0, 0, 0, 0, 0], buffsize = 4, port = 1, rssi = 0, snr = 0\<rparr>)
       + value_width \<lparr>n_bytes = 8, n_values = 2, scale_factor = Finite 10000 0, is_signed = True\<rparr>
       \<le> length (buffer \<lparr>buffer = [0, 0, 0, 0, 0, 0, 0, 0], buffsize = 4, port = 1, rssi = 0, snr = 0\<rparr>)
   \<and> (\<exists>p' lg.
         encodeDataWithSchema (F32 (Finite 16148070 (- 22))) False
           \<lparr>buffer = [0, 0, 0, 0, 0, 0, 0, 0], buffsize = 4, port = 1, rssi = 0, snr = 0\<rparr>
           \<lparr>n_bytes = 8, n_values = 2, scale_factor = Finite 10000 0, is_signed = True\<rparr>
         = Inr (p', lg)
         \<and> \<not> snd (decodeData
               \<lparr>n_bytes = 8, n_values = 2, scale_factor = Finite 10000 0, is_signed = True\<rparr>
               (appended
                 \<lparr>buffer = [0, 0, 0, 0, 0, 0, 0, 0], buffsize = 4, port = 1, rssi = 0, snr = 0\<rparr>
                 p'
                 \<lparr>n_bytes = 8, n_values = 2, scale_factor = Finite 10000 0, is_signed = True\<rparr>)))"
proof -
  let ?s = "\<lparr>n_bytes = 8, n_values = 2, scale_factor = Finite 10000 0, is_signed = True\<rparr>"
  let ?p = "\<lparr>buffer = [0, 0, 0, 0, 0, 0, 0, 0], buffsize = 4, port = 1, rssi = 0, snr = 0\<rparr>"
  have h1: "n_values ?s \<noteq> 0" by simp
  have h2: "value_width ?s \<le> 4" by (simp add: value_width_def)
  have h3: "unat (buffsize ?p) + value_width ?s \<le> length (buffer ?p)"
    by (simp add: value_width_def)
  from h1 h2 h3 sentinel_decodes_as_invalid [OF h1 h2 h3]
  show ?thesis by (intro conjI)
qed

text \<open>
  C9 (as amended). A reading encoded with \<open>valid = true\<close> and decoded again comes back
  valid and within \<open>1 / scale_factor\<close> of the original plus an allowance for the
  binary32 roundings: the decoded reading is finite, \<open>was_valid\<close> is true, and the
  difference from the original is at most
  \<open>1 / scale_factor + 2 ^ -21 * (\<bar>value\<bar> + 1 / scale_factor) + 2 ^ -148\<close>. The codec has a
  non-zero value count, at most four bytes per value and a finite positive scale factor,
  and the buffer has room; the scaled integer (the binary32 product truncated toward
  zero) fits \<open>int\<close> and the field, is not the sentinel pattern of the codec, and is below
  \<open>2 ^ 126 * scale_factor\<close> in magnitude, so that the decoder's quotient does not
  overflow.
\<close>

theorem decoded_reading_within_rounding_allowance:
  assumes "n_values s \<noteq> 0"
    and "value_width s \<le> 4"
    and "unat (buffsize p) + value_width s \<le> length (buffer p)"
    and "scale_factor s = Finite ms es"
    and "0 < valof (scale_factor s)"
    and "converts_to v mx ex"
    and "binary32_rounding (valof (Finite mx ex) * valof (scale_factor s)) mp ep"
    and "- (2 ^ 31) \<le> round_toward_zero (valof (Finite mp ep))"
    and "round_toward_zero (valof (Finite mp ep)) < 2 ^ 31"
    and "fits_field s (round_toward_zero (valof (Finite mp ep)))"
    and "round_toward_zero (valof (Finite mp ep)) \<noteq> sentinel_value s"
    and "\<bar>of_int (round_toward_zero (valof (Finite mp ep)))\<bar> < 2 ^ 126 * valof (scale_factor s)"
  shows "\<exists>p' lg md ed. encodeDataWithSchema v True p s = Inr (p', lg)
           \<and> decodeData s (appended p p' s) = (Finite md ed, True)
           \<and> \<bar>valof (Finite md ed) - exact_value v\<bar>
               \<le> 1 / valof (scale_factor s)
                 + (\<bar>exact_value v\<bar> + 1 / valof (scale_factor s)) / 2 ^ 21 + 1 / 2 ^ 148"
proof -
  let ?t = "round_toward_zero (valof (Finite mp ep))"
  let ?S = "valof (scale_factor s)"
  let ?P = "valof (Finite mp ep)"
  let ?X = "valof (Finite mx ex)"
  let ?p' = "p\<lparr>buffer := take (unat (buffsize p)) (buffer p)
                          @ be_bytes (value_width s) ?t
                          @ drop (unat (buffsize p) + value_width s) (buffer p),
                buffsize := buffsize p + of_nat (value_width s)\<rparr>"
  note S = assms(5)
  from scaled_reading [OF assms(4,6,7)] obtain m e
    where f: "fmul (to_float v) (scale_factor s) = Finite m e"
      and v: "valof (Finite m e) = ?P"
    by blast
  have d: "data_to_encode v True s = Inr (word_of_int ?t)"
    using data_to_encode_valid [OF f] assms(8,9) unfolding v by simp
  have run: "encodeDataWithSchema v True p s = Inr (?p', sign_warning s (word_of_int ?t))"
    using encodeDataWithSchema_ok [OF d assms(1-3)]
    unfolding sint_word_of_int_32 [OF assms(8,9)] .
  have "appended p ?p' s = be_bytes (value_width s) ?t"
    using assms(3) by (intro appended_ok) (simp_all add: length_be_bytes)
  then have again: "reassemble s (appended p ?p' s) = ?t"
    by (simp only: reassemble_be_bytes [OF assms(10)])
  have ms: "ms \<noteq> 0"
  proof
    assume "ms = 0"
    then have "?S = 0" by (simp add: assms(4) valof_powi)
    with S show False by simp
  qed
  have "\<bar>?t\<bar> \<le> 2 ^ 31" using assms(8,9) by simp
  then have "(of_int \<bar>?t\<bar> :: rat) \<le> of_int (2 ^ 31)" by (simp only: of_int_le_iff)
  then have t31: "\<bar>of_int ?t :: rat\<bar> \<le> 2 ^ 31" by simp
  then have "\<bar>of_int ?t * 2 powi 0 :: rat\<bar> < 2 ^ 127" by simp
  from round_f32_finite [OF this] obtain mf ef mr er
    where F: "round_f32 ?t 0 = Finite mf ef"
      and ne: "nearest_even (of_int ?t) mr er"
      and vF: "valof (Finite mf ef) = of_int mr * 2 powi er"
    by auto
  let ?F = "valof (Finite mf ef)"
  have "?t = 0 \<or> 1 \<le> \<bar>?t\<bar>" by arith
  then have "(of_int ?t :: rat) = 0 \<or> (1 :: rat) \<le> \<bar>of_int ?t\<bar>"
    by (simp only: of_int_abs [symmetric] of_int_eq_0_iff of_int_1_le_iff)
  from nearest_even_error_normal [OF ne this]
  have a4: "\<bar>?F - of_int ?t\<bar> \<le> \<bar>of_int ?t\<bar> / 2 ^ 24" by (simp only: vF)
  have "\<bar>?F\<bar> < 3 * 2 ^ 125 * ?S"
    by (rule quotient_below_overflow [OF abs_le_diff a4 assms(12) S])
  then have "\<bar>?F\<bar> / ?S < 3 * 2 ^ 125" using S by (simp add: pos_divide_less_eq)
  then have "\<bar>?F / valof (Finite ms es)\<bar> < 3 * 2 ^ 125"
    using S by (simp add: assms(4) [symmetric] abs_div_scale(2))
  from fdiv_error [OF ms this] obtain md ed
    where D: "fdiv (Finite mf ef) (Finite ms es) = Finite md ed"
      and a5: "\<bar>valof (Finite md ed) - ?F / ?S\<bar> \<le> \<bar>?F / ?S\<bar> / 2 ^ 23 + 1 / 2 ^ 150"
    unfolding assms(4) [symmetric] by blast
  let ?D = "valof (Finite md ed)"
  have dec: "decodeData s (appended p ?p' s) = (Finite md ed, True)"
    using assms(11) by (simp only: decodeData_def again F assms(4) D) simp
  have a1: "\<bar>?X - exact_value v\<bar> \<le> \<bar>exact_value v\<bar> / 2 ^ 24 + 1 / 2 ^ 150"
    by (rule converts_error [OF assms(6)])
  from assms(7) have "nearest_even (?X * ?S) mp ep" by (simp add: binary32_rounding_def)
  from nearest_even_error [OF this]
  have "\<bar>?P - ?X * ?S\<bar> \<le> \<bar>?X * ?S\<bar> / 2 ^ 24 + 1 / 2 ^ 150" by (simp only: valof_powi)
  then have a2: "\<bar>?P / ?S - ?X\<bar> \<le> \<bar>?X\<bar> / 2 ^ 24 + (1 / ?S) / 2 ^ 150"
    by (rule scaled_error [OF S])
  have "\<bar>of_int ?t - ?P\<bar> / ?S \<le> 1 / ?S"
    using round_toward_zero_close [of ?P] S by (intro divide_right_mono) simp_all
  then have a3: "\<bar>of_int ?t / ?S - ?P / ?S\<bar> \<le> 1 / ?S"
    by (simp only: abs_div_scale(1) [OF S])
  have a4': "\<bar>?F / ?S - of_int ?t / ?S\<bar> \<le> \<bar>of_int ?t / ?S\<bar> / 2 ^ 24"
    by (rule scaled_relative [OF S a4])
  have "\<bar>of_int ?t\<bar> / ?S \<le> \<bar>?P\<bar> / ?S"
    using round_toward_zero_abs [of ?P] S by (intro divide_right_mono) simp_all
  then have a9: "\<bar>of_int ?t / ?S\<bar> \<le> \<bar>?P / ?S\<bar>"
    by (simp only: abs_div_scale(2) [OF S])
  have R: "0 \<le> 1 / ?S" using S by simp
  have "\<bar>?D - exact_value v\<bar>
      \<le> 1 / ?S + (\<bar>exact_value v\<bar> + 1 / ?S) / 2 ^ 21 + 1 / 2 ^ 148"
  proof (rule error_sum [OF abs_diff_chain a1 a2 a3 a4' a5 abs_le_diff abs_le_diff a9 abs_le_diff])
    show "0 \<le> 1 / ?S" by (rule R)
  qed simp_all
  with run dec show ?thesis by blast
qed


text \<open>
  C9 as stated fails where binary32 rounds: the \<open>uint32_t\<close> reading 16777217 becomes
  the \<open>float\<close> 16777216, so a 4-byte unsigned codec of scale 100 encodes 1677721600
  (\<open>0x64 0x00 0x00 0x00\<close>), which decodes to 16777216: an error of 1, above \<open>1 / 100\<close>.
\<close>

theorem round_trip_tolerance_counterexample:
  "encodeDataWithSchema (U32 16777217) True
     \<lparr>buffer = [0, 0, 0, 0], buffsize = 0, port = 1, rssi = 0, snr = 0\<rparr>
     \<lparr>n_bytes = 4, n_values = 1, scale_factor = Finite 100 0, is_signed = False\<rparr>
   = Inr (\<lparr>buffer = [0x64, 0, 0, 0], buffsize = 4, port = 1, rssi = 0, snr = 0\<rparr>, [])
   \<and> decodeData \<lparr>n_bytes = 4, n_values = 1, scale_factor = Finite 100 0, is_signed = False\<rparr>
       [0x64, 0, 0, 0]
     = (Finite 8388608 1, True)
   \<and> 1 / valof (Finite 100 0) < \<bar>valof (Finite 8388608 1) - of_int (uint (16777217 :: 32 word))\<bar>"
proof -
  let ?s = "\<lparr>n_bytes = 4, n_values = 1, scale_factor = Finite 100 0, is_signed = False\<rparr>"
  have c: "to_float (U32 16777217) = Finite 8388608 1"
    by code_simp
  have m: "float_to_int (fmul (Finite 8388608 1) (Finite 100 0)) = Inr 1677721600"
    by code_simp
  have d: "data_to_encode (U32 16777217) True ?s = Inr 1677721600"
    by (simp only: data_to_encode_def c m if_True sensorPortSchema.simps)
  have e: "encodeDataWithSchema (U32 16777217) True
     \<lparr>buffer = [0, 0, 0, 0], buffsize = 0, port = 1, rssi = 0, snr = 0\<rparr> ?s
   = Inr (\<lparr>buffer = [0x64, 0, 0, 0], buffsize = 4, port = 1, rssi = 0, snr = 0\<rparr>, [])"
    by (simp only: encodeDataWithSchema_def d)
       (simp add: sign_warning_def word_sless_alt encode_loop.simps encode_byte_def)
  have r: "reassemble ?s [0x64, 0, 0, 0] = 1677721600"
    by (simp add: reassemble_def be_int_def)
  have q: "fdiv (round_f32 1677721600 0) (Finite 100 0) = Finite 8388608 1"
    by code_simp
  have "sentinel_bytes ?s = [0xFF, 0xFF, 0xFF, 0xFF]"
    by (simp add: sentinel_bytes_def value_width_def numeral_eq_Suc)
  then have v: "sentinel_value ?s = 4294967295"
    by (simp add: sentinel_value_def be_int_def)
  have f: "decodeData ?s [0x64, 0, 0, 0] = (Finite 8388608 1, True)"
    by (simp only: decodeData_def r v sensorPortSchema.simps q) simp
  have g: "1 / valof (Finite 100 0) < \<bar>valof (Finite 8388608 1) - of_int (uint (16777217 :: 32 word))\<bar>"
    by (simp add: valof_def)
  from e f g show ?thesis by (intro conjI)
qed


theorem decoded_reading_within_rounding_allowance_witness:
  "n_values \<lparr>n_bytes = 2, n_values = 1, scale_factor = Finite 100 0, is_signed = False\<rparr> \<noteq> 0
   \<and> value_width \<lparr>n_bytes = 2, n_values = 1, scale_factor = Finite 100 0, is_signed = False\<rparr> \<le> 4
   \<and> unat (buffsize \<lparr>buffer = [0, 0], buffsize = 0, port = 1, rssi = 0, snr = 0\<rparr>)
       + value_width \<lparr>n_bytes = 2, n_values = 1, scale_factor = Finite 100 0, is_signed = False\<rparr>
       \<le> length (buffer \<lparr>buffer = [0, 0], buffsize = 0, port = 1, rssi = 0, snr = 0\<rparr>)
   \<and> scale_factor \<lparr>n_bytes = 2, n_values = 1, scale_factor = Finite 100 0, is_signed = False\<rparr>
       = Finite 100 0
   \<and> 0 < valof (scale_factor
              \<lparr>n_bytes = 2, n_values = 1, scale_factor = Finite 100 0, is_signed = False\<rparr>)
   \<and> converts_to (F32 (Finite 16148070 (- 22))) 16148070 (- 22)
   \<and> binary32_rounding
        (valof (Finite 16148070 (- 22))
          * valof (scale_factor
              \<lparr>n_bytes = 2, n_values = 1, scale_factor = Finite 100 0, is_signed = False\<rparr>))
        12615680 (- 15)
   \<and> - (2 ^ 31) \<le> round_toward_zero (valof (Finite 12615680 (- 15)))
   \<and> round_toward_zero (valof (Finite 12615680 (- 15))) < 2 ^ 31
   \<and> fits_field \<lparr>n_bytes = 2, n_values = 1, scale_factor = Finite 100 0, is_signed = False\<rparr>
         (round_toward_zero (valof (Finite 12615680 (- 15))))
   \<and> round_toward_zero (valof (Finite 12615680 (- 15)))
       \<noteq> sentinel_value
           \<lparr>n_bytes = 2, n_values = 1, scale_factor = Finite 100 0, is_signed = False\<rparr>
   \<and> \<bar>of_int (round_toward_zero (valof (Finite 12615680 (- 15))))\<bar>
       < 2 ^ 126 * valof (scale_factor
              \<lparr>n_bytes = 2, n_values = 1, scale_factor = Finite 100 0, is_signed = False\<rparr>)
   \<and> (\<exists>p' lg md ed.
         encodeDataWithSchema (F32 (Finite 16148070 (- 22))) True
           \<lparr>buffer = [0, 0], buffsize = 0, port = 1, rssi = 0, snr = 0\<rparr>
           \<lparr>n_bytes = 2, n_values = 1, scale_factor = Finite 100 0, is_signed = False\<rparr>
         = Inr (p', lg)
         \<and> decodeData \<lparr>n_bytes = 2, n_values = 1, scale_factor = Finite 100 0, is_signed = False\<rparr>
              (appended \<lparr>buffer = [0, 0], buffsize = 0, port = 1, rssi = 0, snr = 0\<rparr> p'
                 \<lparr>n_bytes = 2, n_values = 1, scale_factor = Finite 100 0, is_signed = False\<rparr>)
             = (Finite md ed, True)
         \<and> \<bar>valof (Finite md ed) - exact_value (F32 (Finite 16148070 (- 22)))\<bar>
             \<le> 1 / valof (Finite 100 0)
               + (\<bar>exact_value (F32 (Finite 16148070 (- 22)))\<bar> + 1 / valof (Finite 100 0)) / 2 ^ 21
               + 1 / 2 ^ 148)"
proof -
  let ?s = "\<lparr>n_bytes = 2, n_values = 1, scale_factor = Finite 100 0, is_signed = False\<rparr>"
  let ?p = "\<lparr>buffer = [0, 0], buffsize = 0, port = 1, rssi = 0, snr = 0\<rparr>"
  let ?v = "F32 (Finite 16148070 (- 22))"
  let ?t = "round_toward_zero (valof (Finite 12615680 (- 15)))"
  have h1: "n_values ?s \<noteq> 0" by simp
  have h2: "value_width ?s \<le> 4" by (simp add: value_width_def)
  have h3: "unat (buffsize ?p) + value_width ?s \<le> length (buffer ?p)"
    by (simp add: value_width_def)
  have h4: "scale_factor ?s = Finite 100 0" by simp
  have h5: "0 < valof (scale_factor ?s)" by (simp add: valof_def)
  have h6: "converts_to ?v 16148070 (- 22)" by (simp add: converts_to_def)
  have h7: "binary32_rounding (valof (Finite 16148070 (- 22)) * valof (scale_factor ?s))
              12615680 (- 15)"
    using rounded_3_85 by simp
  have h8: "- (2 ^ 31) \<le> ?t" unfolding truncated_3_85 by simp
  have h9: "?t < 2 ^ 31" unfolding truncated_3_85 by simp
  have h10: "fits_field ?s ?t"
    unfolding truncated_3_85 by (simp add: fits_field_def value_width_def)
  have h11: "?t \<noteq> sentinel_value ?s"
    unfolding truncated_3_85 sentinel_value_2_unsigned by simp
  have h12: "\<bar>of_int ?t\<bar> < 2 ^ 126 * valof (scale_factor ?s)"
    unfolding truncated_3_85 by (simp add: valof_def)
  from decoded_reading_within_rounding_allowance [OF h1 h2 h3 h4 h5 h6 h7 h8 h9 h10 h11 h12]
  have "\<exists>p' lg md ed. encodeDataWithSchema ?v True ?p ?s = Inr (p', lg)
      \<and> decodeData ?s (appended ?p p' ?s) = (Finite md ed, True)
      \<and> \<bar>valof (Finite md ed) - exact_value ?v\<bar>
          \<le> 1 / valof (Finite 100 0)
            + (\<bar>exact_value ?v\<bar> + 1 / valof (Finite 100 0)) / 2 ^ 21 + 1 / 2 ^ 148"
    by (simp only: h4)
  with h1 h2 h3 h4 h5 h6 h7 h8 h9 h10 h11 h12 show ?thesis by (intro conjI)
qed


end
